theory Spec2Isabelle
  imports Complex_Main
begin

section \<open>Numbers\<close>

text \<open>
  The agent computes with numpy floats.  They are modelled as the reals extended with
  the two infinities and NaN, with the special-value rules of IEEE 754: NaN is
  contagious, \<open>inf - inf\<close>, \<open>0 * inf\<close>, \<open>0 / 0\<close> and \<open>inf / inf\<close> are NaN, and every
  comparison with NaN is false.  Rounding and the sign of zero are not modelled: a
  finite result is the exact real.
\<close>

datatype npfloat = Fin real | PInf | NInf | NaN

fun fneg :: "npfloat \<Rightarrow> npfloat" where
  "fneg (Fin x) = Fin (- x)"
| "fneg PInf = NInf"
| "fneg NInf = PInf"
| "fneg NaN = NaN"

fun fadd :: "npfloat \<Rightarrow> npfloat \<Rightarrow> npfloat" where
  "fadd NaN _ = NaN"
| "fadd _ NaN = NaN"
| "fadd (Fin x) (Fin y) = Fin (x + y)"
| "fadd (Fin _) PInf = PInf"
| "fadd (Fin _) NInf = NInf"
| "fadd PInf (Fin _) = PInf"
| "fadd NInf (Fin _) = NInf"
| "fadd PInf PInf = PInf"
| "fadd NInf NInf = NInf"
| "fadd PInf NInf = NaN"
| "fadd NInf PInf = NaN"

definition fsub :: "npfloat \<Rightarrow> npfloat \<Rightarrow> npfloat" where
  "fsub x y = fadd x (fneg y)"

text \<open>The sign of an infinite product: \<open>inf * c\<close> for a finite \<open>c\<close>.\<close>

definition inf_times :: "bool \<Rightarrow> real \<Rightarrow> npfloat" where
  "inf_times pos c =
     (if c = 0 then NaN else if (0 < c) = pos then PInf else NInf)"

fun fmul :: "npfloat \<Rightarrow> npfloat \<Rightarrow> npfloat" where
  "fmul NaN _ = NaN"
| "fmul _ NaN = NaN"
| "fmul (Fin x) (Fin y) = Fin (x * y)"
| "fmul (Fin x) PInf = inf_times True x"
| "fmul (Fin x) NInf = inf_times False x"
| "fmul PInf (Fin y) = inf_times True y"
| "fmul NInf (Fin y) = inf_times False y"
| "fmul PInf PInf = PInf"
| "fmul NInf NInf = PInf"
| "fmul PInf NInf = NInf"
| "fmul NInf PInf = NInf"

text \<open>
  numpy division does not raise: a finite non-zero number over zero is an infinity of
  the numerator's sign, and an infinity over a finite number keeps or flips its sign
  with the sign of the divisor (zero counting as positive).
\<close>

fun fdiv :: "npfloat \<Rightarrow> npfloat \<Rightarrow> npfloat" where
  "fdiv NaN _ = NaN"
| "fdiv _ NaN = NaN"
| "fdiv (Fin x) (Fin y) =
     (if y = 0 then (if x = 0 then NaN else if 0 < x then PInf else NInf)
      else Fin (x / y))"
| "fdiv (Fin _) PInf = Fin 0"
| "fdiv (Fin _) NInf = Fin 0"
| "fdiv PInf (Fin y) = (if 0 \<le> y then PInf else NInf)"
| "fdiv NInf (Fin y) = (if 0 \<le> y then NInf else PInf)"
| "fdiv PInf PInf = NaN"
| "fdiv PInf NInf = NaN"
| "fdiv NInf PInf = NaN"
| "fdiv NInf NInf = NaN"

fun fexp :: "npfloat \<Rightarrow> npfloat" where
  "fexp (Fin x) = Fin (exp x)"
| "fexp PInf = PInf"
| "fexp NInf = Fin 0"
| "fexp NaN = NaN"

text \<open>\<open>x < y\<close> on floats; false as soon as one side is NaN.\<close>

fun flt :: "npfloat \<Rightarrow> npfloat \<Rightarrow> bool" where
  "flt NaN _ = False"
| "flt _ NaN = False"
| "flt (Fin x) (Fin y) = (x < y)"
| "flt (Fin _) PInf = True"
| "flt (Fin _) NInf = False"
| "flt PInf _ = False"
| "flt NInf NInf = False"
| "flt NInf _ = True"

text \<open>\<open>np.sum\<close> of a vector, and the accumulation \<open>value += x\<close> from \<open>0\<close>.\<close>

definition fsum :: "npfloat list \<Rightarrow> npfloat" where
  "fsum xs = foldl fadd (Fin 0) xs"

text \<open>\<open>np.amax\<close>: the largest entry, NaN as soon as one entry is NaN; the caller
  makes sure the vector is not empty.\<close>

definition fmax2 :: "npfloat \<Rightarrow> npfloat \<Rightarrow> npfloat" where
  "fmax2 x y = (if x = NaN \<or> y = NaN then NaN else if flt x y then y else x)"

definition amax :: "npfloat list \<Rightarrow> npfloat" where
  "amax xs = foldl fmax2 (hd xs) (tl xs)"


section \<open>Data model\<close>

text \<open>Everything the agent's code can raise, as a value.\<close>

datatype error =
    IndexError
  | ValueError
  | DegenerateDistribution
  | IllegalStep
  | NoStepToUndo
  | FileNotFoundError
  | UnpicklingError

text \<open>
  The state dictionary the environment hands out for the player to move: the
  observation (already as the byte string \<open>state['obs'].tostring()\<close>), the keys of
  \<open>state['legal_actions']\<close> in their order, and \<open>state['raw_legal_actions']\<close>.
\<close>

record state =
  obs :: string
  legal_actions :: "nat list"
  raw_legal_actions :: "string list"

text \<open>
  Modelled from the spec: the environment (section 6, Environment contract), which is
  not among the sources.  A game is a finite tree: a finished game carries the payoffs
  of the seats, any other node the seat to move, its state and the child reached by
  each action the environment accepts.
\<close>

datatype game =
    Over "npfloat list"
  | Turn nat state "(nat \<times> game) list"

text \<open>A seat of the environment: whether its agent is a \<open>SARSAAgent\<close>, and the
  agent's \<open>step\<close>, from the state to the chosen action.\<close>

record seat =
  is_sarsa :: bool
  seat_step :: "state \<Rightarrow> nat"

record env =
  num_actions :: nat
  agents :: "seat list"
  root :: game
  cur :: game
  history :: "game list"

text \<open>Modelled from the spec: \<open>reset\<close>, \<open>step\<close> (mutates to the child node) and
  \<open>stepBack\<close> (undoes exactly one prior \<open>step\<close>) of the environment contract.\<close>

definition env_reset :: "env \<Rightarrow> env" where
  "env_reset e = e\<lparr>cur := root e, history := []\<rparr>"

definition env_step :: "env \<Rightarrow> nat \<Rightarrow> error + env" where
  "env_step e act =
     (case cur e of
        Over _ \<Rightarrow> Inl IllegalStep
      | Turn _ _ ch \<Rightarrow>
          (case map_of ch act of
             None \<Rightarrow> Inl IllegalStep
           | Some g \<Rightarrow> Inr (e\<lparr>cur := g, history := cur e # history e\<rparr>)))"

definition env_step_back :: "env \<Rightarrow> error + env" where
  "env_step_back e =
     (case history e of
        [] \<Rightarrow> Inl NoStepToUndo
      | g # gs \<Rightarrow> Inr (e\<lparr>cur := g, history := gs\<rparr>))"

text \<open>
  The agent.  \<open>policy\<close> and \<open>qualities\<close> are the two dictionaries keyed by the
  observation string.  The attribute \<open>a\<close> (the number of stored states, written by
  \<open>train\<close> and never read) is left out.
\<close>

record sarsa_agent =
  gamma :: real
  alpha :: real
  agent_id :: nat
  env :: env
  model_path :: string
  policy :: "string \<rightharpoonup> npfloat list"
  qualities :: "string \<rightharpoonup> npfloat list"
  iteration :: int

text \<open>A method either returns a value or raises; both leave an agent behind, since
  the assignments made before a raise stay.\<close>

type_synonym 'a result = "(error \<times> sarsa_agent) + ('a \<times> sarsa_agent)"

text \<open>A Python dictionary built by assignments: the keys in insertion order, an
  assignment to a key already there replacing its value in place.\<close>

fun dict_store :: "'k \<Rightarrow> 'v \<Rightarrow> ('k \<times> 'v) list \<Rightarrow> ('k \<times> 'v) list" where
  "dict_store k v [] = [(k, v)]"
| "dict_store k v ((k', v') # kvs) =
     (if k' = k then (k, v) # kvs else (k', v') # dict_store k v kvs)"

section \<open>Softmax and masking\<close>

text \<open>
  \<open>scipy.special.softmax\<close>: the exponentials of the entries shifted by their maximum,
  over the sum of these.  The maximum of an empty vector raises.
\<close>

definition softmax :: "npfloat list \<Rightarrow> error + npfloat list" where
  "softmax x =
     (if x = [] then Inl ValueError
      else let x_max = amax x;
               exp_x_shifted = map (\<lambda>v. fexp (fsub v x_max)) x;
               total = fsum exp_x_shifted
           in Inr (map (\<lambda>y. fdiv y total) exp_x_shifted))"

text \<open>
  Modelled from the spec: \<open>remove_illegal\<close> of \<open>rlcard.utils.utils\<close>, which is not
  among the sources.  Section 4.2, masking rule: the mass on illegal actions is zeroed
  and the remaining masses are renormalized; when no legal action has positive mass the
  call fails (section 7, \<open>DegenerateDistribution\<close>).
\<close>

definition remove_illegal :: "npfloat list \<Rightarrow> nat list \<Rightarrow> error + npfloat list" where
  "remove_illegal ap legal =
     (let probs = map (\<lambda>i. if i \<in> set legal then ap ! i else Fin 0)
                      [0 ..< length ap]
      in if list_ex (\<lambda>p. flt (Fin 0) p) probs
         then Inr (map (\<lambda>p. fdiv p (fsum probs)) probs)
         else Inl DegenerateDistribution)"

section \<open>The store\<close>

text \<open>Reading \<open>d[k]\<close> from a \<open>defaultdict(list)\<close>: a missing key is inserted with the
  empty list.\<close>

definition policy_get :: "sarsa_agent \<Rightarrow> string \<Rightarrow> npfloat list \<times> sarsa_agent" where
  "policy_get a ob =
     (case policy a ob of
        Some v \<Rightarrow> (v, a)
      | None \<Rightarrow> ([], a\<lparr>policy := (policy a)(ob \<mapsto> [])\<rparr>))"

definition qualities_get :: "sarsa_agent \<Rightarrow> string \<Rightarrow> npfloat list \<times> sarsa_agent" where
  "qualities_get a ob =
     (case qualities a ob of
        Some v \<Rightarrow> (v, a)
      | None \<Rightarrow> ([], a\<lparr>qualities := (qualities a)(ob \<mapsto> [])\<rparr>))"

definition action_probs :: "sarsa_agent \<Rightarrow> string \<Rightarrow> nat list \<Rightarrow> npfloat list result" where
  "action_probs a ob legal =
     (if policy a ob = None \<and> qualities a ob = None then
        let tactions = map (\<lambda>action. if action \<in> set legal then Fin 0 else NInf)
                           [0 ..< num_actions (env a)];
            a1 = a\<lparr>qualities := (qualities a)(ob \<mapsto> tactions)\<rparr>
        in (case softmax tactions of
              Inl e \<Rightarrow> Inl (e, a1)
            | Inr probs \<Rightarrow>
                let a2 = a1\<lparr>policy := (policy a1)(ob \<mapsto> probs)\<rparr>
                in (case remove_illegal probs legal of
                      Inl e \<Rightarrow> Inl (e, a2)
                    | Inr masked \<Rightarrow> Inr (masked, a2)))
      else
        let (probs, a1) = policy_get a ob
        in (case remove_illegal probs legal of
              Inl e \<Rightarrow> Inl (e, a1)
            | Inr masked \<Rightarrow> Inr (masked, a1)))"

text \<open>The update of one slot, \<open>qf[i] += alpha * (target - qf[i])\<close>, in the arithmetic
  above: the three operations are exact where float64 rounds, so nothing here speaks
  of how a slot behaves under rounding (where it can stop short of its target).\<close>

definition update_slot :: "real \<Rightarrow> npfloat \<Rightarrow> npfloat \<Rightarrow> npfloat" where
  "update_slot al target q = fadd q (fmul (Fin al) (fsub target q))"

text \<open>The loop over the supplied targets.  The vector is updated in place, so an
  index out of range leaves the slots already visited updated.\<close>

fun update_slots :: "real \<Rightarrow> (nat \<times> npfloat) list \<Rightarrow> npfloat list \<Rightarrow> error option \<times> npfloat list" where
  "update_slots al [] qf = (None, qf)"
| "update_slots al ((i, target) # rest) qf =
     (if i < length qf
      then update_slots al rest (qf[i := update_slot al target (qf ! i)])
      else (Some IndexError, qf))"

definition update_policy :: "sarsa_agent \<Rightarrow> string \<Rightarrow> (nat \<times> npfloat) list \<Rightarrow> unit result" where
  "update_policy a ob next_state_values =
     (let (qf0, a1) = qualities_get a ob;
          (err, qf) = update_slots (alpha a1) next_state_values qf0;
          a2 = a1\<lparr>qualities := (qualities a1)(ob \<mapsto> qf)\<rparr>
      in (case err of
            Some e \<Rightarrow> Inl (e, a2)
          | None \<Rightarrow>
              (case softmax qf of
                 Inl e \<Rightarrow> Inl (e, a2)
               | Inr probs \<Rightarrow> Inr ((), a2\<lparr>policy := (policy a2)(ob \<mapsto> probs)\<rparr>))))"


section \<open>Action selection\<close>

text \<open>\<open>np.argmax\<close>: the first index of the largest entry, the first NaN counting as
  the largest; an empty vector raises.\<close>

fun argmax_scan :: "nat \<Rightarrow> npfloat \<Rightarrow> nat \<Rightarrow> npfloat list \<Rightarrow> nat" where
  "argmax_scan best bv i [] = best"
| "argmax_scan best bv i (x # xs) =
     (if bv \<noteq> NaN \<and> (x = NaN \<or> flt bv x)
      then argmax_scan i x (Suc i) xs
      else argmax_scan best bv (Suc i) xs)"

definition np_argmax :: "npfloat list \<Rightarrow> error + nat" where
  "np_argmax xs =
     (case xs of [] \<Rightarrow> Inl ValueError | x # rest \<Rightarrow> Inr (argmax_scan 0 x 1 rest))"

text \<open>The dictionary comprehension of \<open>eval_step\<close>, over \<open>range(len(legal_actions))\<close>.\<close>

fun info_probs ::
  "string list \<Rightarrow> nat list \<Rightarrow> npfloat list \<Rightarrow> nat list \<Rightarrow> (string \<times> npfloat) list
     \<Rightarrow> error + (string \<times> npfloat) list" where
  "info_probs raw legal probs [] acc = Inr acc"
| "info_probs raw legal probs (i # rest) acc =
     (if i < length raw \<and> legal ! i < length probs
      then info_probs raw legal probs rest (dict_store (raw ! i) (probs ! (legal ! i)) acc)
      else Inl IndexError)"

definition eval_step ::
  "sarsa_agent \<Rightarrow> state \<Rightarrow> (nat \<times> (string \<times> npfloat) list) result" where
  "eval_step a st =
     (case action_probs a (obs st) (legal_actions st) of
        Inl x \<Rightarrow> Inl x
      | Inr (probs, a1) \<Rightarrow>
          (case np_argmax probs of
             Inl e \<Rightarrow> Inl (e, a1)
           | Inr action \<Rightarrow>
               (case info_probs (raw_legal_actions st) (legal_actions st) probs
                       [0 ..< length (legal_actions st)] [] of
                  Inl e \<Rightarrow> Inl (e, a1)
                | Inr info \<Rightarrow> Inr ((action, info), a1))))"

section \<open>Tree traversal\<close>

text \<open>
  The loop \<open>for action in legal_actions\<close> of \<open>traverse_tree\<close>, with the recursive call
  as a parameter.  It carries the agent, the accumulated \<open>value\<close> and the dictionary
  \<open>quality\<close>.  \<open>None\<close> is a recursive call that ran out of depth.
\<close>

fun for_actions ::
  "(sarsa_agent \<Rightarrow> npfloat result option) \<Rightarrow> npfloat list \<Rightarrow> nat list \<Rightarrow> sarsa_agent
     \<Rightarrow> npfloat \<Rightarrow> (nat \<times> npfloat) list
     \<Rightarrow> (npfloat \<times> (nat \<times> npfloat) list) result option" where
  "for_actions rec probs [] a v quality = Some (Inr ((v, quality), a))"
| "for_actions rec probs (action # rest) a v quality =
     (if \<not> action < length probs then Some (Inl (IndexError, a))
      else
        (case env_step (env a) action of
           Inl e \<Rightarrow> Some (Inl (e, a))
         | Inr e1 \<Rightarrow>
             (case rec (a\<lparr>env := e1\<rparr>) of
                None \<Rightarrow> None
              | Some (Inl x) \<Rightarrow> Some (Inl x)
              | Some (Inr (q, a2)) \<Rightarrow>
                  (case env_step_back (env a2) of
                     Inl e \<Rightarrow> Some (Inl (e, a2))
                   | Inr e3 \<Rightarrow>
                       for_actions rec probs rest (a2\<lparr>env := e3\<rparr>)
                         (fadd v (fmul (probs ! action) q))
                         (dict_store action q quality)))))"

text \<open>
  \<open>traverse_tree\<close>.  The first argument bounds the depth of the recursion: \<open>None\<close> is
  returned when it is used up, and a game tree of height below it never uses it up.
\<close>

primrec traverse_tree :: "nat \<Rightarrow> sarsa_agent \<Rightarrow> npfloat result option" where
  "traverse_tree 0 = (\<lambda>a. None)"
| "traverse_tree (Suc n) = (\<lambda>a.
     (case cur (env a) of
        Over chips \<Rightarrow>
          (if agent_id a < length chips then Some (Inr (chips ! agent_id a, a))
           else Some (Inl (IndexError, a)))
      | Turn current_player st ch \<Rightarrow>
          (if current_player \<noteq> agent_id a then
             (if \<not> current_player < length (agents (env a)) then Some (Inl (IndexError, a))
              else
                let action = seat_step (agents (env a) ! current_player) st
                in (case env_step (env a) action of
                      Inl e \<Rightarrow> Some (Inl (e, a))
                    | Inr e1 \<Rightarrow>
                        (case traverse_tree n (a\<lparr>env := e1\<rparr>) of
                           None \<Rightarrow> None
                         | Some (Inl x) \<Rightarrow> Some (Inl x)
                         | Some (Inr (Vstate, a2)) \<Rightarrow>
                             (case env_step_back (env a2) of
                                Inl e \<Rightarrow> Some (Inl (e, a2))
                              | Inr e3 \<Rightarrow> Some (Inr (Vstate, a2\<lparr>env := e3\<rparr>))))))
           else
             (case action_probs a (obs st) (legal_actions st) of
                Inl x \<Rightarrow> Some (Inl x)
              | Inr (probs, a1) \<Rightarrow>
                  (case for_actions (traverse_tree n) probs (legal_actions st) a1 (Fin 0) [] of
                     None \<Rightarrow> None
                   | Some (Inl x) \<Rightarrow> Some (Inl x)
                   | Some (Inr ((v, quality), a2)) \<Rightarrow>
                       (case update_policy a2 (obs st) quality of
                          Inl x \<Rightarrow> Some (Inl x)
                        | Inr (u, a3) \<Rightarrow> Some (Inr (fmul v (Fin (gamma a3)), a3))))))))"

section \<open>Training driver\<close>

fun first_sarsa :: "nat \<Rightarrow> seat list \<Rightarrow> nat option" where
  "first_sarsa i [] = None"
| "first_sarsa i (s # ss) = (if is_sarsa s then Some i else first_sarsa (Suc i) ss)"

definition find_agent :: "sarsa_agent \<Rightarrow> sarsa_agent" where
  "find_agent a =
     (case first_sarsa 0 (agents (env a)) of
        None \<Rightarrow> a
      | Some i \<Rightarrow> a\<lparr>agent_id := i\<rparr>)"

definition train :: "nat \<Rightarrow> sarsa_agent \<Rightarrow> unit result option" where
  "train n a =
     (let a1 = a\<lparr>iteration := iteration a + 1\<rparr>;
          a2 = a1\<lparr>env := env_reset (env a1)\<rparr>;
          a3 = find_agent a2
      in (case traverse_tree n a3 of
            None \<Rightarrow> None
          | Some (Inl x) \<Rightarrow> Some (Inl x)
          | Some (Inr (v, a4)) \<Rightarrow> Some (Inr ((), a4))))"

section \<open>Persistence\<close>

text \<open>
  A file of the model directory: absent, present with contents \<open>pickle.load\<close> rejects,
  or a pickled value.  The file system maps a path to the directory there, if any.
\<close>

datatype 'a pfile = Missing | Garbled | Pickled 'a

record model_dir =
  policy_pkl :: "(string \<rightharpoonup> npfloat list) pfile"
  qualities_pkl :: "(string \<rightharpoonup> npfloat list) pfile"
  iteration_pkl :: "int pfile"

definition unpickle :: "'a pfile \<Rightarrow> error + 'a" where
  "unpickle f =
     (case f of
        Missing \<Rightarrow> Inl FileNotFoundError
      | Garbled \<Rightarrow> Inl UnpicklingError
      | Pickled v \<Rightarrow> Inr v)"

definition save :: "sarsa_agent \<Rightarrow> (string \<rightharpoonup> model_dir) \<Rightarrow> (string \<rightharpoonup> model_dir)" where
  "save a fs =
     fs(model_path a \<mapsto>
          \<lparr>policy_pkl = Pickled (policy a),
           qualities_pkl = Pickled (qualities a),
           iteration_pkl = Pickled (iteration a)\<rparr>)"

definition load :: "sarsa_agent \<Rightarrow> (string \<rightharpoonup> model_dir) \<Rightarrow> unit result" where
  "load a fs =
     (case fs (model_path a) of
        None \<Rightarrow> Inr ((), a)
      | Some d \<Rightarrow>
          (case unpickle (policy_pkl d) of
             Inl e \<Rightarrow> Inl (e, a)
           | Inr p \<Rightarrow>
               let a1 = a\<lparr>policy := p\<rparr>
               in (case unpickle (qualities_pkl d) of
                     Inl e \<Rightarrow> Inl (e, a1)
                   | Inr q \<Rightarrow>
                       let a2 = a1\<lparr>qualities := q\<rparr>
                       in (case unpickle (iteration_pkl d) of
                             Inl e \<Rightarrow> Inl (e, a2)
                           | Inr it \<Rightarrow> Inr ((), a2\<lparr>iteration := it\<rparr>)))))"


section \<open>Notions used to state the properties\<close>

text \<open>The agent a call leaves behind, whether it returned or raised.\<close>

definition agent_of :: "'a result \<Rightarrow> sarsa_agent" where
  "agent_of r = (case r of Inl (e, a) \<Rightarrow> a | Inr (v, a) \<Rightarrow> a)"

text \<open>The store invariant: the two dictionaries have the same keys.\<close>

definition store_inv :: "sarsa_agent \<Rightarrow> bool" where
  "store_inv a = (dom (policy a) = dom (qualities a))"


text \<open>
  The child values of a decision node, in the words of the specification: for each
  action in turn, advance the environment by it, recurse, undo the step; the next
  action starts from the agent the previous one left.  \<open>None\<close> when a step or a
  recursive call does not return a value.
\<close>

fun child_values ::
  "(sarsa_agent \<Rightarrow> npfloat result option) \<Rightarrow> nat list \<Rightarrow> sarsa_agent \<Rightarrow> npfloat list option" where
  "child_values rec [] a = Some []"
| "child_values rec (action # rest) a =
     (case env_step (env a) action of
        Inl e \<Rightarrow> None
      | Inr e1 \<Rightarrow>
          (case rec (a\<lparr>env := e1\<rparr>) of
             Some (Inr (q, a2)) \<Rightarrow>
               (case env_step_back (env a2) of
                  Inl e \<Rightarrow> None
                | Inr e3 \<Rightarrow> map_option ((#) q) (child_values rec rest (a2\<lparr>env := e3\<rparr>)))
           | _ \<Rightarrow> None))"

text \<open>The quality vector of a first visit, and the uniform distribution over the legal
  actions of a static action space of \<open>n\<close> actions (zero on the illegal ones).\<close>

definition tactions_of :: "nat \<Rightarrow> nat list \<Rightarrow> npfloat list" where
  "tactions_of n legal = map (\<lambda>action. if action \<in> set legal then Fin 0 else NInf) [0 ..< n]"

definition uniform_over :: "nat \<Rightarrow> nat list \<Rightarrow> npfloat list" where
  "uniform_over n legal =
     map (\<lambda>action. if action \<in> set legal
                    then Fin (1 / real (length (filter (\<lambda>i. i \<in> set legal) [0 ..< n])))
                    else Fin 0) [0 ..< n]"

section \<open>Example data\<close>

text \<open>The two-node game of the specification: one decision node of seat 0 with the
  legal actions 0 and 1, which end the game with payoffs +1 and -1 for seat 0.\<close>

definition ex_state :: state where
  "ex_state = \<lparr>obs = ''s0'', legal_actions = [0, 1], raw_legal_actions = [''call'', ''fold'']\<rparr>"

definition two_node_game :: game where
  "two_node_game =
     Turn 0 ex_state [(0, Over [Fin 1, Fin (- 1)]), (1, Over [Fin (- 1), Fin 1])]"

definition ex_env :: env where
  "ex_env =
     \<lparr>num_actions = 2,
      agents = [\<lparr>is_sarsa = True, seat_step = (\<lambda>s. 0)\<rparr>,
                \<lparr>is_sarsa = False, seat_step = (\<lambda>s. 0)\<rparr>],
      root = two_node_game, cur = two_node_game, history = []\<rparr>"

definition ex_agent :: sarsa_agent where
  "ex_agent =
     \<lparr>gamma = 2 / 5, alpha = 1 / 10, agent_id = 0, env = ex_env,
      model_path = ''./sarsa_model'', policy = Map.empty, qualities = Map.empty,
      iteration = 0\<rparr>"

text \<open>A model directory whose two dictionaries have different keys, and whose
  quality vector has one slot where the environment has two actions.\<close>

definition ex_bad_policy :: "string \<rightharpoonup> npfloat list" where
  "ex_bad_policy = [''s0'' \<mapsto> [Fin (1 / 2), Fin (1 / 2)]]"

definition ex_bad_qualities :: "string \<rightharpoonup> npfloat list" where
  "ex_bad_qualities = [''s1'' \<mapsto> [Fin 0]]"

definition ex_bad_dir :: model_dir where
  "ex_bad_dir =
     \<lparr>policy_pkl = Pickled ex_bad_policy,
      qualities_pkl = Pickled ex_bad_qualities,
      iteration_pkl = Pickled 7\<rparr>"

definition ex_fs :: "string \<rightharpoonup> model_dir" where
  "ex_fs = [''./sarsa_model'' \<mapsto> ex_bad_dir]"

text \<open>The agent after its first visit to the decision node, and the targets one
  traversal of the two-node game supplies.\<close>

definition ex_stored_agent :: sarsa_agent where
  "ex_stored_agent =
     ex_agent\<lparr>policy := [''s0'' \<mapsto> [Fin (1 / 2), Fin (1 / 2)]],
              qualities := [''s0'' \<mapsto> [Fin 0, Fin 0]]\<rparr>"

definition ex_targets :: "(nat \<times> npfloat) list" where
  "ex_targets = [(0, Fin 1), (1, Fin (- 1))]"

text \<open>A decision node of seat 0 whose actions end the game with payoffs 3 and 1 for
  seat 0, and the same node below a move of seat 1.\<close>

definition ex_leaf_game :: game where
  "ex_leaf_game = Turn 0 ex_state [(0, Over [Fin 3, Fin (- 3)]), (1, Over [Fin 1, Fin (- 1)])]"

definition ex_opp_state :: state where
  "ex_opp_state = \<lparr>obs = ''o0'', legal_actions = [0], raw_legal_actions = [''call'']\<rparr>"

definition ex_opp_game :: game where
  "ex_opp_game = Turn 1 ex_opp_state [(0, ex_leaf_game)]"

definition ex_leaf_agent :: sarsa_agent where
  "ex_leaf_agent = ex_agent\<lparr>env := ex_env\<lparr>root := ex_leaf_game, cur := ex_leaf_game\<rparr>\<rparr>"

definition ex_opp_agent :: sarsa_agent where
  "ex_opp_agent = ex_agent\<lparr>env := ex_env\<lparr>root := ex_opp_game, cur := ex_opp_game\<rparr>\<rparr>"

section \<open>Basic facts\<close>

lemma agent_of_Inr [simp]: "agent_of (Inr (v, a)) = a"
  by (simp add: agent_of_def)

lemma agent_of_Inl [simp]: "agent_of (Inl (e, a)) = a"
  by (simp add: agent_of_def)

lemma one_plus_exp_ne: "1 + exp (x::real) \<noteq> 0"
  using exp_gt_zero[of x] by linarith

lemmas ex_defs = ex_agent_def ex_env_def two_node_game_def ex_state_def

lemmas run_defs = action_probs_def softmax_def amax_def fmax2_def fsum_def fsub_def
  remove_illegal_def upt_rec Let_def env_step_def env_step_back_def update_policy_def
  qualities_get_def policy_get_def update_slot_def

text \<open>One traversal of the two-node game from the empty store.\<close>

lemma ex_traverse:
  "traverse_tree 2 ex_agent =
     Some (Inr (Fin 0,
       ex_agent\<lparr>policy := [''s0'' \<mapsto> [Fin (1 / (1 + exp (- (1 / 5)))),
                                      Fin (exp (- (1 / 5)) / (1 + exp (- (1 / 5))))]],
                qualities := [''s0'' \<mapsto> [Fin (1 / 10), Fin (- (1 / 10))]]\<rparr>))"
  by (simp add: numeral_2_eq_2 ex_defs run_defs one_plus_exp_ne)


section \<open>The environment is left where it was found\<close>



lemma env_step_back_step:
  "env_step e act = Inr e1 \<Longrightarrow> env_step_back e1 = Inr e"
  by (auto simp: env_step_def env_step_back_def split: game.splits option.splits)

lemma action_probs_env:
  "env (agent_of (action_probs a ob legal)) = env a"
  by (auto simp: action_probs_def agent_of_def policy_get_def Let_def
      split: sum.splits option.splits)

lemma update_policy_env:
  "env (agent_of (update_policy a ob ts)) = env a"
  by (auto simp: update_policy_def agent_of_def qualities_get_def Let_def
      split: sum.splits option.splits prod.splits)

lemma for_actions_env:
  assumes rec: "\<And>b q b'. rec b = Some (Inr (q, b')) \<Longrightarrow> env b' = env b"
  shows "for_actions rec probs acts a v quality = Some (Inr (x, a')) \<Longrightarrow> env a' = env a"
proof (induction acts arbitrary: a v quality)
  case Nil
  then show ?case by simp
next
  case (Cons action rest)
  from Cons.prems obtain e1 q a2 e3 where
    s: "env_step (env a) action = Inr e1" and
    r: "rec (a\<lparr>env := e1\<rparr>) = Some (Inr (q, a2))" and
    b: "env_step_back (env a2) = Inr e3" and
    f: "for_actions rec probs rest (a2\<lparr>env := e3\<rparr>) (fadd v (fmul (probs ! action) q))
          (dict_store action q quality) = Some (Inr (x, a'))"
    by (auto split: if_splits sum.splits option.splits)
  from rec[OF r] have "env a2 = e1" by simp
  with env_step_back_step[OF s] b have "e3 = env a" by simp
  moreover from Cons.IH[OF f] have "env a' = e3" by simp
  ultimately show ?case by simp
qed

lemma traverse_tree_env:
  "traverse_tree n a = Some (Inr (v, a')) \<Longrightarrow> env a' = env a"
proof (induction n arbitrary: a v a')
  case 0
  then show ?case by simp
next
  case (Suc n)
  show ?case
  proof (cases "cur (env a)")
    case (Over chips)
    with Suc.prems show ?thesis by (auto split: if_splits)
  next
    case (Turn p st ch)
    show ?thesis
    proof (cases "p = agent_id a")
      case False
      with Turn Suc.prems obtain e1 a2 e3 where
        s: "env_step (env a) (seat_step (agents (env a) ! p) st) = Inr e1" and
        r: "traverse_tree n (a\<lparr>env := e1\<rparr>) = Some (Inr (v, a2))" and
        b: "env_step_back (env a2) = Inr e3" and
        a': "a' = a2\<lparr>env := e3\<rparr>"
        by (auto simp: Let_def split: if_splits sum.splits option.splits)
      from Suc.IH[OF r] have "env a2 = e1" by simp
      with env_step_back_step[OF s] b a' show ?thesis by simp
    next
      case True
      with Turn Suc.prems obtain probs a1 x q a2 u where
        p: "action_probs a (obs st) (legal_actions st) = Inr (probs, a1)" and
        f: "for_actions (traverse_tree n) probs (legal_actions st) a1 (Fin 0) [] = Some (Inr ((x, q), a2))" and
        u: "update_policy a2 (obs st) q = Inr (u, a')"
        by (auto split: if_splits sum.splits option.splits)
      from action_probs_env[of a "obs st" "legal_actions st"] p have "env a1 = env a" by simp
      moreover from for_actions_env[OF Suc.IH f] have "env a2 = env a1" by simp
      moreover from update_policy_env[of a2 "obs st" q] u have "env a' = env a2" by simp
      ultimately show ?thesis by simp
    qed
  qed
qed







section \<open>Loading persisted state\<close>

text \<open>
  C10: \<open>load\<close> when nothing exists at the model path returns normally and leaves the
  agent, hence its two dictionaries and its iteration counter, as it was.
\<close>

theorem load_missing_location:
  "fs (model_path a) = None \<Longrightarrow> load a fs = Inr ((), a)"
  by (simp add: load_def)

theorem load_missing_location_witness:
  "Map.empty (model_path ex_agent) = None \<and> load ex_agent Map.empty = Inr ((), ex_agent)"
  using load_missing_location[of Map.empty ex_agent] by simp

text \<open>
  C9, as stated, fails: \<open>load\<close> checks nothing.  On a model directory whose dictionaries
  have different keys and whose quality vector has the wrong length it returns normally
  and the agent holds the persisted values.
\<close>

theorem load_unchecked_counterexample:
  "ex_bad_policy ''s0'' \<noteq> None \<and> ex_bad_qualities ''s0'' = None \<and>
   map_option length (ex_bad_qualities ''s1'') \<noteq> Some (num_actions (env ex_agent)) \<and>
   load ex_agent ex_fs =
     Inr ((), ex_agent\<lparr>policy := ex_bad_policy, qualities := ex_bad_qualities,
                        iteration := 7\<rparr>) \<and>
   policy ex_agent \<noteq> ex_bad_policy"
proof -
  have "policy ex_agent ''s0'' \<noteq> ex_bad_policy ''s0''"
    by (simp add: ex_agent_def ex_bad_policy_def)
  then have "policy ex_agent \<noteq> ex_bad_policy" by metis
  then show ?thesis
    by (simp add: load_def unpickle_def ex_fs_def ex_bad_dir_def ex_agent_def ex_env_def
        ex_bad_policy_def ex_bad_qualities_def)
qed

text \<open>
  C9, amended: when the three files are there and unpickle, \<open>load\<close> returns normally
  and installs the persisted policy, qualities and iteration as they are, whatever
  their keys and vector lengths.
\<close>

theorem load_installs_persisted:
  assumes "fs (model_path a) = Some d"
    and "policy_pkl d = Pickled p"
    and "qualities_pkl d = Pickled q"
    and "iteration_pkl d = Pickled it"
  shows "load a fs = Inr ((), a\<lparr>policy := p, qualities := q, iteration := it\<rparr>)"
  using assms by (simp add: load_def unpickle_def)

theorem load_installs_persisted_witness:
  "ex_fs (model_path ex_agent) = Some ex_bad_dir \<and>
   policy_pkl ex_bad_dir = Pickled ex_bad_policy \<and>
   qualities_pkl ex_bad_dir = Pickled ex_bad_qualities \<and>
   iteration_pkl ex_bad_dir = Pickled 7 \<and>
   load ex_agent ex_fs =
     Inr ((), ex_agent\<lparr>policy := ex_bad_policy, qualities := ex_bad_qualities,
                        iteration := 7\<rparr>)"
  using load_installs_persisted[of ex_fs ex_agent ex_bad_dir ex_bad_policy ex_bad_qualities 7]
  by (simp add: ex_fs_def ex_agent_def ex_bad_dir_def)

section \<open>The update rule\<close>

lemma update_slots_spec:
  "distinct (map fst ts) \<Longrightarrow> \<forall>i \<in> set (map fst ts). i < length qf \<Longrightarrow>
   \<exists>qf'. update_slots al ts qf = (None, qf') \<and> length qf' = length qf \<and>
     (\<forall>(i, t) \<in> set ts. qf' ! i = update_slot al t (qf ! i)) \<and>
     (\<forall>j < length qf. j \<notin> set (map fst ts) \<longrightarrow> qf' ! j = qf ! j)"
proof (induction ts arbitrary: qf)
  case Nil
  then show ?case by simp
next
  case (Cons p ts)
  obtain i t where p: "p = (i, t)" by (cases p)
  let ?q1 = "qf[i := update_slot al t (qf ! i)]"
  from Cons.prems p have i: "i < length qf" and ni: "i \<notin> set (map fst ts)"
    and d: "distinct (map fst ts)" and r: "\<forall>j \<in> set (map fst ts). j < length ?q1"
    by auto
  from Cons.IH[OF d r] obtain qf' where
    u: "update_slots al ts ?q1 = (None, qf')" and l: "length qf' = length ?q1" and
    upd: "\<forall>(j, t') \<in> set ts. qf' ! j = update_slot al t' (?q1 ! j)" and
    same: "\<forall>j < length ?q1. j \<notin> set (map fst ts) \<longrightarrow> qf' ! j = ?q1 ! j"
    by blast
  have "update_slots al (p # ts) qf = (None, qf')" using p i u by simp
  moreover have "length qf' = length qf" using l by simp
  moreover have "qf' ! i = update_slot al t (qf ! i)" using same i ni by simp
  moreover have "\<forall>(j, t') \<in> set ts. qf' ! j = update_slot al t' (qf ! j)"
  proof clarify
    fix j t' assume jt: "(j, t') \<in> set ts"
    then have "j \<in> set (map fst ts)" by force
    with ni have "j \<noteq> i" by auto
    with upd jt show "qf' ! j = update_slot al t' (qf ! j)" by auto
  qed
  moreover have "\<forall>j < length qf. j \<notin> set (map fst (p # ts)) \<longrightarrow> qf' ! j = qf ! j"
    using same p by auto
  ultimately show ?case using p by auto
qed

lemma update_policy_spec:
  assumes st: "qualities a ob = Some qf" and ne: "qf \<noteq> []"
    and d: "distinct (map fst ts)" and r: "\<forall>i \<in> set (map fst ts). i < length qf"
  shows "\<exists>qf' probs'.
      update_policy a ob ts =
        Inr ((), a\<lparr>qualities := (qualities a)(ob \<mapsto> qf'), policy := (policy a)(ob \<mapsto> probs')\<rparr>) \<and>
      length qf' = length qf \<and>
      (\<forall>(i, t) \<in> set ts. qf' ! i = fadd (qf ! i) (fmul (Fin (alpha a)) (fsub t (qf ! i)))) \<and>
      (\<forall>j < length qf. j \<notin> set (map fst ts) \<longrightarrow> qf' ! j = qf ! j) \<and>
      softmax qf' = Inr probs'"
proof -
  from update_slots_spec[OF d r, of "alpha a"] obtain qf' where
    u: "update_slots (alpha a) ts qf = (None, qf')" and l: "length qf' = length qf" and
    upd: "\<forall>(i, t) \<in> set ts. qf' ! i = update_slot (alpha a) t (qf ! i)" and
    same: "\<forall>j < length qf. j \<notin> set (map fst ts) \<longrightarrow> qf' ! j = qf ! j"
    by blast
  from l ne have ne': "qf' \<noteq> []" by auto
  then obtain probs' where s: "softmax qf' = Inr probs'"
    by (auto simp: softmax_def Let_def)
  have "update_policy a ob ts =
        Inr ((), a\<lparr>qualities := (qualities a)(ob \<mapsto> qf'), policy := (policy a)(ob \<mapsto> probs')\<rparr>)"
    using st u s by (simp add: update_policy_def qualities_get_def)
  with l upd same s show ?thesis unfolding update_slot_def by blast
qed

text \<open>
  C2: for a stored observation and targets for distinct action indices of the vector,
  \<open>update_policy\<close> returns; each supplied slot of the stored quality vector has become
  \<open>q + alpha * (target - q)\<close>, every other slot and the length are unchanged, and the
  stored probability vector is the softmax of the whole new quality vector.  The
  entries of the two dictionaries under other observations are untouched.
\<close>

theorem update_policy_moves_slots:
  assumes "qualities a ob = Some qf" and "qf \<noteq> []"
    and "distinct (map fst targets)" and "\<forall>i \<in> set (map fst targets). i < length qf"
  shows "\<exists>qf' probs'.
      update_policy a ob targets =
        Inr ((), a\<lparr>qualities := (qualities a)(ob \<mapsto> qf'),
                    policy := (policy a)(ob \<mapsto> probs')\<rparr>) \<and>
      length qf' = length qf \<and>
      (\<forall>(i, target) \<in> set targets.
          qf' ! i = fadd (qf ! i) (fmul (Fin (alpha a)) (fsub target (qf ! i)))) \<and>
      (\<forall>j < length qf. j \<notin> set (map fst targets) \<longrightarrow> qf' ! j = qf ! j) \<and>
      softmax qf' = Inr probs'"
  using update_policy_spec[OF assms] .

theorem update_policy_moves_slots_witness:
  "qualities ex_stored_agent ''s0'' = Some [Fin 0, Fin 0] \<and> [Fin 0, Fin (0::real)] \<noteq> [] \<and>
   distinct (map fst ex_targets) \<and> list_all (\<lambda>i. i < length [Fin 0, Fin (0::real)]) (map fst ex_targets) \<and>
   (\<exists>qf' probs'.
      update_policy ex_stored_agent ''s0'' ex_targets =
        Inr ((), ex_stored_agent\<lparr>qualities := (qualities ex_stored_agent)(''s0'' \<mapsto> qf'),
                    policy := (policy ex_stored_agent)(''s0'' \<mapsto> probs')\<rparr>) \<and>
      qf' = [Fin (1 / 10), Fin (- (1 / 10))] \<and>
      softmax qf' = Inr probs')"
proof -
  have h: "qualities ex_stored_agent ''s0'' = Some [Fin 0, Fin 0]"
    "[Fin 0, Fin (0::real)] \<noteq> []" "distinct (map fst ex_targets)"
    "\<forall>i \<in> set (map fst ex_targets). i < length [Fin 0, Fin (0::real)]"
    by (simp_all add: ex_stored_agent_def ex_targets_def)
  from update_policy_moves_slots[OF h] obtain qf' probs' where
    u: "update_policy ex_stored_agent ''s0'' ex_targets =
        Inr ((), ex_stored_agent\<lparr>qualities := (qualities ex_stored_agent)(''s0'' \<mapsto> qf'),
                    policy := (policy ex_stored_agent)(''s0'' \<mapsto> probs')\<rparr>)" and
    l: "length qf' = length [Fin 0, Fin (0::real)]" and
    m: "\<forall>(i, target) \<in> set ex_targets.
          qf' ! i = fadd ([Fin 0, Fin 0] ! i) (fmul (Fin (alpha ex_stored_agent)) (fsub target ([Fin 0, Fin 0] ! i)))" and
    s: "softmax qf' = Inr probs'"
    by blast
  from m have "qf' ! 0 = Fin (1 / 10)" "qf' ! 1 = Fin (- (1 / 10))"
    by (simp_all add: ex_targets_def ex_stored_agent_def ex_agent_def fsub_def)
  with l have "qf' = [Fin (1 / 10), Fin (- (1 / 10))]"
    by (cases qf'; cases "tl qf'") auto
  with h u s show ?thesis by (auto simp: ex_targets_def)
qed

section \<open>First visit and masking\<close>

lemma foldl_fadd_Fin: "foldl fadd (Fin a) (map Fin rs) = Fin (a + sum_list rs)"
  by (induction rs arbitrary: a) (auto simp: add.assoc)

lemma fsum_Fin: "fsum (map Fin rs) = Fin (sum_list rs)"
  by (simp add: fsum_def foldl_fadd_Fin)

lemma sum_list_indicator:
  "sum_list (map (\<lambda>i. if P i then 1 else 0) xs) = real (length (filter P xs))"
  by (induction xs) auto

lemma foldl_fmax2_zero_ninf:
  "\<forall>x \<in> set xs. x = Fin 0 \<or> x = NInf \<Longrightarrow> acc = Fin 0 \<or> acc = NInf \<Longrightarrow>
   foldl fmax2 acc xs = (if acc = Fin 0 \<or> Fin 0 \<in> set xs then Fin 0 else NInf)"
proof (induction xs arbitrary: acc)
  case Nil
  then show ?case by auto
next
  case (Cons x xs)
  from Cons.prems have x: "x = Fin 0 \<or> x = NInf" by simp
  with Cons.prems(2) have a: "fmax2 acc x = Fin 0 \<or> fmax2 acc x = NInf"
    and b: "fmax2 acc x = Fin 0 \<longleftrightarrow> acc = Fin 0 \<or> x = Fin 0"
    by (auto simp: fmax2_def)
  from Cons.prems(1) have "\<forall>y \<in> set xs. y = Fin 0 \<or> y = NInf" by simp
  from Cons.IH[OF this a]
  have "foldl fmax2 (fmax2 acc x) xs =
          (if fmax2 acc x = Fin 0 \<or> Fin 0 \<in> set xs then Fin 0 else NInf)" .
  then show ?case unfolding b by auto
qed

lemma amax_zero_ninf:
  assumes "\<forall>x \<in> set xs. x = Fin 0 \<or> x = NInf" "Fin 0 \<in> set xs"
  shows "amax xs = Fin 0"
proof -
  from assms(2) obtain y ys where xs: "xs = y # ys" by (cases xs) auto
  with assms have "\<forall>x \<in> set ys. x = Fin 0 \<or> x = NInf" "y = Fin 0 \<or> y = NInf" by auto
  from foldl_fmax2_zero_ninf[OF this] assms(2) xs show ?thesis
    by (auto simp: amax_def)
qed

lemma softmax_tactions:
  assumes "\<exists>i \<in> set legal. i < n"
  shows "softmax (tactions_of n legal) = Inr (uniform_over n legal)"
proof -
  let ?xs = "tactions_of n legal"
  let ?c = "real (length (filter (\<lambda>i. i \<in> set legal) [0 ..< n]))"
  from assms obtain i where i: "i \<in> set legal" "i < n" by auto
  then have "i \<in> set (filter (\<lambda>i. i \<in> set legal) [0 ..< n])" by simp
  then have c: "?c \<noteq> 0" by (auto simp: filter_empty_conv)
  from i have z: "Fin 0 \<in> set ?xs" by (force simp: tactions_of_def)
  then have ne: "?xs \<noteq> []" by auto
  have "\<forall>x \<in> set ?xs. x = Fin 0 \<or> x = NInf" by (auto simp: tactions_of_def)
  from amax_zero_ninf[OF this z] have m: "amax ?xs = Fin 0" .
  have e: "map (\<lambda>v. fexp (fsub v (Fin 0))) ?xs
            = map Fin (map (\<lambda>i. if i \<in> set legal then 1 else 0) [0 ..< n])"
    by (auto simp: tactions_of_def fsub_def)
  have s: "fsum (map (\<lambda>v. fexp (fsub v (Fin 0))) ?xs) = Fin ?c"
    unfolding e fsum_Fin sum_list_indicator ..
  show ?thesis
    using ne c unfolding softmax_def Let_def m s
    by (auto simp: tactions_of_def uniform_over_def fsub_def)
qed

lemma list_ex_upt: "list_ex P (map f [0 ..< n]) \<longleftrightarrow> (\<exists>i < n. P (f i))"
  by (auto simp: list_ex_iff)

lemma remove_illegal_degenerate:
  "\<not> (\<exists>i < length ap. i \<in> set legal \<and> flt (Fin 0) (ap ! i)) \<Longrightarrow>
   remove_illegal ap legal = Inl DegenerateDistribution"
  by (auto simp: remove_illegal_def Let_def list_ex_upt)

lemma sum_list_pos_real:
  fixes rs :: "real list"
  assumes "\<forall>r \<in> set rs. 0 \<le> r" "\<exists>r \<in> set rs. 0 < r"
  shows "0 < sum_list rs"
  using assms
proof (induction rs)
  case Nil then show ?case by simp
next
  case (Cons r rs)
  then have "0 \<le> sum_list rs" by (intro sum_list_nonneg) auto
  with Cons show ?case
    by (cases "0 < r") (auto simp: add_pos_nonneg add_nonneg_pos)
qed

lemma sum_list_div_const:
  fixes c :: real
  shows "sum_list (map (\<lambda>r. r / c) rs) = sum_list rs / c"
  by (induction rs) (auto simp: add_divide_distrib)

lemma remove_illegal_normalizes:
  assumes nn: "\<forall>r \<in> set rs. 0 \<le> r"
    and pos: "\<exists>i < length rs. i \<in> set legal \<and> 0 < rs ! i"
  defines "ms \<equiv> map (\<lambda>i. if i \<in> set legal then rs ! i else 0) [0 ..< length rs]"
  shows "0 < sum_list ms"
    and "remove_illegal (map Fin rs) legal = Inr (map (\<lambda>m. Fin (m / sum_list ms)) ms)"
    and "fsum (map (\<lambda>m. Fin (m / sum_list ms)) ms) = Fin 1"
proof -
  have nn': "\<forall>m \<in> set ms. 0 \<le> m" using nn by (auto simp: ms_def)
  from pos obtain i where i: "i < length rs" "i \<in> set legal" "0 < rs ! i" by auto
  then have "rs ! i \<in> set ms" by (force simp: ms_def)
  with i have "\<exists>m \<in> set ms. 0 < m" by auto
  from sum_list_pos_real[OF nn' this] show S: "0 < sum_list ms" .
  have masked: "map (\<lambda>i. if i \<in> set legal then map Fin rs ! i else Fin 0) [0 ..< length (map Fin rs)]
      = map Fin ms"
    by (auto simp: ms_def)
  have ex: "list_ex (\<lambda>p. flt (Fin 0) p) (map Fin ms)"
    using \<open>\<exists>m \<in> set ms. 0 < m\<close> by (auto simp: list_ex_iff)
  show "remove_illegal (map Fin rs) legal = Inr (map (\<lambda>m. Fin (m / sum_list ms)) ms)"
    unfolding remove_illegal_def Let_def masked fsum_Fin using ex S by (simp add: comp_def)
  have "fsum (map Fin (map (\<lambda>m. m / sum_list ms) ms)) = Fin 1"
    using S by (simp only: fsum_Fin sum_list_div_const) simp
  then show "fsum (map (\<lambda>m. Fin (m / sum_list ms)) ms) = Fin 1"
    by (simp only: map_map comp_def)
qed

lemma foldl_fmax2_ninf:
  "\<forall>x \<in> set xs. x = NInf \<Longrightarrow> foldl fmax2 NInf xs = NInf"
  by (induction xs) (auto simp: fmax2_def)

lemma softmax_all_ninf:
  assumes "qf \<noteq> []" "\<forall>q \<in> set qf. q = NInf"
  shows "softmax qf = Inr (map (\<lambda>q. NaN) qf)"
proof -
  from assms obtain y ys where "qf = y # ys" by (cases qf) auto
  with assms have "amax qf = NInf" by (auto simp: amax_def foldl_fmax2_ninf)
  with assms show ?thesis
    by (auto simp: softmax_def Let_def fsub_def)
qed

lemma remove_illegal_nan:
  "remove_illegal (map (\<lambda>q. NaN) qf) legal = Inl DegenerateDistribution"
  by (rule remove_illegal_degenerate) auto

lemma sum_list_indicator_const:
  fixes c :: real
  shows "sum_list (map (\<lambda>i. if P i then c else 0) xs) = c * real (length (filter P xs))"
  by (induction xs) (auto simp: algebra_simps)

lemma uniform_over_Fin:
  "uniform_over n legal =
     map Fin (map (\<lambda>i. if i \<in> set legal
                         then 1 / real (length (filter (\<lambda>i. i \<in> set legal) [0 ..< n])) else 0)
                  [0 ..< n])"
  by (simp add: uniform_over_def)

lemma remove_illegal_uniform:
  assumes "\<exists>i \<in> set legal. i < n"
  shows "remove_illegal (uniform_over n legal) legal = Inr (uniform_over n legal)"
    and "fsum (uniform_over n legal) = Fin 1"
proof -
  let ?k = "real (length (filter (\<lambda>i. i \<in> set legal) [0 ..< n]))"
  let ?rs = "map (\<lambda>i. if i \<in> set legal then 1 / ?k else 0) [0 ..< n]"
  from assms obtain i where i: "i \<in> set legal" "i < n" by auto
  then have "i \<in> set (filter (\<lambda>i. i \<in> set legal) [0 ..< n])" by simp
  then have k: "0 < ?k" by (cases "filter (\<lambda>i. i \<in> set legal) [0 ..< n]") auto
  have ms: "map (\<lambda>i. if i \<in> set legal then ?rs ! i else 0) [0 ..< length ?rs] = ?rs"
    by (auto intro: nth_equalityI)
  have one: "sum_list ?rs = 1"
    using k by (simp only: sum_list_indicator_const) simp
  have nn: "\<forall>r \<in> set ?rs. 0 \<le> r" by auto
  have pos: "\<exists>j < length ?rs. j \<in> set legal \<and> 0 < ?rs ! j"
    using i k by (intro exI[of _ i]) simp
  from remove_illegal_normalizes(2)[OF nn pos]
  have "remove_illegal (map Fin ?rs) legal = Inr (map (\<lambda>m. Fin (m / 1)) ?rs)"
    unfolding ms one .
  then show "remove_illegal (uniform_over n legal) legal = Inr (uniform_over n legal)"
    unfolding uniform_over_Fin by (simp add: comp_def)
  show "fsum (uniform_over n legal) = Fin 1"
    unfolding uniform_over_Fin fsum_Fin one ..
qed

lemma action_probs_first_visit:
  assumes "policy a ob = None" "qualities a ob = None" "\<exists>i \<in> set legal. i < num_actions (env a)"
  shows "action_probs a ob legal =
     Inr (uniform_over (num_actions (env a)) legal,
          a\<lparr>qualities := (qualities a)(ob \<mapsto> tactions_of (num_actions (env a)) legal),
            policy := (policy a)(ob \<mapsto> uniform_over (num_actions (env a)) legal)\<rparr>)"
  using assms(1,2) softmax_tactions[OF assms(3)] remove_illegal_uniform(1)[OF assms(3)]
  by (simp add: action_probs_def tactions_of_def)

text \<open>
  C7: on the first visit to an observation with at least one legal action in the
  static action space, \<open>action_probs\<close> stores a quality vector over the whole action
  space with 0 at every legal index and negative infinity at every illegal one, and
  stores as probability vector the softmax of it, which is the uniform distribution
  over the legal actions and zero on the illegal ones; that vector is also what the
  call returns.
\<close>

theorem first_visit_initialises:
  assumes "policy a ob = None" and "qualities a ob = None"
    and "\<exists>i \<in> set legal. i < num_actions (env a)"
  shows "qualities (agent_of (action_probs a ob legal)) ob =
           Some (map (\<lambda>action. if action \<in> set legal then Fin 0 else NInf)
                     [0 ..< num_actions (env a)]) \<and>
         policy (agent_of (action_probs a ob legal)) ob =
           Some (uniform_over (num_actions (env a)) legal) \<and>
         softmax (map (\<lambda>action. if action \<in> set legal then Fin 0 else NInf)
                      [0 ..< num_actions (env a)]) =
           Inr (uniform_over (num_actions (env a)) legal) \<and>
         fsum (uniform_over (num_actions (env a)) legal) = Fin 1 \<and>
         action_probs a ob legal =
           Inr (uniform_over (num_actions (env a)) legal, agent_of (action_probs a ob legal))"
  using action_probs_first_visit[OF assms] softmax_tactions[OF assms(3)]
    remove_illegal_uniform(2)[OF assms(3)]
  by (simp add: tactions_of_def)

theorem first_visit_initialises_witness:
  "policy ex_agent ''s0'' = None \<and> qualities ex_agent ''s0'' = None \<and>
   list_ex (\<lambda>i. i < num_actions (env ex_agent)) [0, 1] \<and>
   qualities (agent_of (action_probs ex_agent ''s0'' [0, 1])) ''s0'' = Some [Fin 0, Fin 0] \<and>
   policy (agent_of (action_probs ex_agent ''s0'' [0, 1])) ''s0'' = Some [Fin (1 / 2), Fin (1 / 2)] \<and>
   uniform_over 3 [0, 2] = [Fin (1 / 2), Fin 0, Fin (1 / 2)]"
proof -
  have h: "policy ex_agent ''s0'' = None" "qualities ex_agent ''s0'' = None"
    "\<exists>i \<in> set [0, 1]. i < num_actions (env ex_agent)"
    by (simp_all add: ex_agent_def ex_env_def)
  have n: "num_actions (env ex_agent) = 2" by (simp add: ex_agent_def ex_env_def)
  have u: "uniform_over 2 [0, 1] = [Fin (1 / 2), Fin (1 / 2)]"
    "uniform_over 3 [0, 2] = [Fin (1 / 2), Fin 0, Fin (1 / 2)]"
    by (simp_all add: uniform_over_def upt_rec)
  have t: "map (\<lambda>action. if action \<in> set [0, 1] then Fin 0 else NInf) [0 ..< 2] = [Fin 0, Fin 0]"
    by (simp add: upt_rec)
  from first_visit_initialises[OF h] h u show ?thesis
    unfolding n t by simp
qed

lemma action_probs_masked:
  "action_probs a ob legal = Inr (masked, a') \<Longrightarrow>
   \<exists>probs. policy a' ob = Some probs \<and> remove_illegal probs legal = Inr masked"
  by (auto simp: action_probs_def policy_get_def Let_def split: if_splits sum.splits option.splits)

text \<open>
  C5: masking a vector to the legal actions fails with \<open>DegenerateDistribution\<close> when
  no legal action has positive mass, NaN entries included; on a vector of non-negative
  masses with a positive legal one it zeroes the illegal entries and divides the legal
  ones by their total, so that the result sums to 1.  A quality vector that is all
  negative infinity has a softmax that masking rejects.  Whatever \<open>action_probs\<close>
  returns is the stored probability vector masked this way.
\<close>

theorem masking_renormalizes_or_fails:
  "(\<not> (\<exists>i < length ap. i \<in> set legal \<and> flt (Fin 0) (ap ! i)) \<longrightarrow>
      remove_illegal ap legal = Inl DegenerateDistribution) \<and>
   ((\<forall>r \<in> set rs. 0 \<le> r) \<and> (\<exists>i < length rs. i \<in> set legal \<and> 0 < rs ! i) \<longrightarrow>
      (\<exists>masked total.
          remove_illegal (map Fin rs) legal = Inr masked \<and>
          total = sum_list (map (\<lambda>i. if i \<in> set legal then rs ! i else 0) [0 ..< length rs]) \<and>
          0 < total \<and> length masked = length rs \<and>
          (\<forall>i < length rs. masked ! i = (if i \<in> set legal then Fin (rs ! i / total) else Fin 0)) \<and>
          fsum masked = Fin 1)) \<and>
   (qf \<noteq> [] \<and> (\<forall>q \<in> set qf. q = NInf) \<longrightarrow>
      (\<exists>probs. softmax qf = Inr probs \<and>
          remove_illegal probs legal = Inl DegenerateDistribution)) \<and>
   (action_probs a ob legal = Inr (masked', a') \<longrightarrow>
      (\<exists>probs. policy a' ob = Some probs \<and> remove_illegal probs legal = Inr masked'))"
proof (intro conjI impI)
  assume "\<not> (\<exists>i < length ap. i \<in> set legal \<and> flt (Fin 0) (ap ! i))"
  then show "remove_illegal ap legal = Inl DegenerateDistribution"
    by (rule remove_illegal_degenerate)
next
  assume h: "(\<forall>r \<in> set rs. 0 \<le> r) \<and> (\<exists>i < length rs. i \<in> set legal \<and> 0 < rs ! i)"
  let ?ms = "map (\<lambda>i. if i \<in> set legal then rs ! i else 0) [0 ..< length rs]"
  let ?masked = "map (\<lambda>m. Fin (m / sum_list ?ms)) ?ms"
  from h have nn: "\<forall>r \<in> set rs. 0 \<le> r"
    and pos: "\<exists>i < length rs. i \<in> set legal \<and> 0 < rs ! i" by auto
  note n = remove_illegal_normalizes[OF nn pos]
  have "\<forall>i < length rs. ?masked ! i = (if i \<in> set legal then Fin (rs ! i / sum_list ?ms) else Fin 0)"
    by simp
  moreover have "length ?masked = length rs" by simp
  ultimately show "\<exists>masked total.
          remove_illegal (map Fin rs) legal = Inr masked \<and>
          total = sum_list ?ms \<and>
          0 < total \<and> length masked = length rs \<and>
          (\<forall>i < length rs. masked ! i = (if i \<in> set legal then Fin (rs ! i / total) else Fin 0)) \<and>
          fsum masked = Fin 1"
    using n by blast
next
  assume "qf \<noteq> [] \<and> (\<forall>q \<in> set qf. q = NInf)"
  then have "softmax qf = Inr (map (\<lambda>q. NaN) qf)" by (intro softmax_all_ninf) auto
  with remove_illegal_nan[of qf legal]
  show "\<exists>probs. softmax qf = Inr probs \<and> remove_illegal probs legal = Inl DegenerateDistribution"
    by blast
next
  assume "action_probs a ob legal = Inr (masked', a')"
  then show "\<exists>probs. policy a' ob = Some probs \<and> remove_illegal probs legal = Inr masked'"
    by (rule action_probs_masked)
qed

theorem masking_renormalizes_or_fails_witness:
  "\<not> flt (Fin 0) ([NaN, Fin 1] ! 0) \<and>
   remove_illegal [NaN, Fin 1] [0] = Inl DegenerateDistribution \<and>
   list_all (\<lambda>r. 0 \<le> r) [1 / 4, 1 / 2, 1 / 4 :: real] \<and>
   remove_illegal (map Fin [1 / 4, 1 / 2, 1 / 4]) [0, 2] = Inr [Fin (1 / 2), Fin 0, Fin (1 / 2)] \<and>
   softmax [NInf, NInf] = Inr [NaN, NaN] \<and>
   remove_illegal [NaN, NaN] [0, 1] = Inl DegenerateDistribution \<and>
   (\<exists>a'. action_probs ex_agent ''s0'' [0, 1] = Inr ([Fin (1 / 2), Fin (1 / 2)], a'))"
proof -
  note t = masking_renormalizes_or_fails[of "[NaN, Fin 1]" "[0]" "[]" "[NInf, NInf]"
      ex_agent "''s0''" "[]" ex_agent]
  from t have 1: "remove_illegal [NaN, Fin 1] [0] = Inl DegenerateDistribution"
    by simp
  have 2: "remove_illegal (map Fin [1 / 4, 1 / 2, 1 / 4]) [0, 2] = Inr [Fin (1 / 2), Fin 0, Fin (1 / 2)]"
    by (simp add: remove_illegal_def fsum_def upt_rec)
  have 3: "softmax [NInf, NInf] = Inr [NaN, NaN]"
    by (simp add: softmax_def amax_def fmax2_def fsub_def fsum_def)
  have 4: "remove_illegal [NaN, NaN] [0, 1] = Inl DegenerateDistribution"
    by (simp add: remove_illegal_def upt_rec)
  have 5: "\<exists>a'. action_probs ex_agent ''s0'' [0, 1] = Inr ([Fin (1 / 2), Fin (1 / 2)], a')"
    by (simp add: ex_defs run_defs)
  from 1 2 3 4 5 show ?thesis by simp
qed


section \<open>Greedy action selection\<close>

lemma flt_irrefl: "\<not> flt x x"
  by (cases x) auto

lemma flt_le_less_trans:
  "x \<noteq> NaN \<Longrightarrow> y \<noteq> NaN \<Longrightarrow> z \<noteq> NaN \<Longrightarrow> \<not> flt y x \<Longrightarrow> flt y z \<Longrightarrow> flt x z"
  by (cases x; cases y; cases z) auto

lemma flt_asym: "flt x y \<Longrightarrow> \<not> flt y x"
  by (cases x; cases y) auto

lemma argmax_scan_spec:
  assumes "NaN \<notin> set pre" "NaN \<notin> set xs" "best < length pre" "pre ! best = bv"
    "i = length pre" "\<forall>j < length pre. \<not> flt bv (pre ! j)" "\<forall>j < best. flt (pre ! j) bv"
  shows "argmax_scan best bv i xs < length (pre @ xs) \<and>
         (\<forall>j < length (pre @ xs). \<not> flt ((pre @ xs) ! argmax_scan best bv i xs) ((pre @ xs) ! j)) \<and>
         (\<forall>j < argmax_scan best bv i xs. flt ((pre @ xs) ! j) ((pre @ xs) ! argmax_scan best bv i xs))"
  using assms
proof (induction xs arbitrary: pre best bv i)
  case Nil
  then show ?case by simp
next
  case (Cons x xs)
  from Cons.prems have nx: "x \<noteq> NaN" and nxs: "NaN \<notin> set xs" and npre: "NaN \<notin> set (pre @ [x])"
    by auto
  from Cons.prems have nbv: "bv \<noteq> NaN" by (metis nth_mem)
  have app: "(pre @ [x]) @ xs = pre @ x # xs" by simp
  show ?case
  proof (cases "flt bv x")
    case True
    have 1: "length pre < length (pre @ [x])" by simp
    have 2: "(pre @ [x]) ! length pre = x" by simp
    have 3: "Suc i = length (pre @ [x])" using Cons.prems by simp
    have 4: "\<forall>j < length (pre @ [x]). \<not> flt x ((pre @ [x]) ! j)"
    proof (intro allI impI)
      fix j assume j: "j < length (pre @ [x])"
      show "\<not> flt x ((pre @ [x]) ! j)"
      proof (cases "j < length pre")
        case False
        with j have "j = length pre" by simp
        then show ?thesis by (simp add: flt_irrefl)
      next
        case jl: True
        then have m: "pre ! j \<in> set pre" by simp
        with Cons.prems have np: "pre ! j \<noteq> NaN" by metis
        from Cons.prems jl have "\<not> flt bv (pre ! j)" by simp
        from flt_le_less_trans[OF np nbv nx this True] have "flt (pre ! j) x" .
        then show ?thesis using jl by (simp add: nth_append flt_asym)
      qed
    qed
    have 5: "\<forall>j < length pre. flt ((pre @ [x]) ! j) x"
    proof (intro allI impI)
      fix j assume jl: "j < length pre"
      then have m: "pre ! j \<in> set pre" by simp
      with Cons.prems have np: "pre ! j \<noteq> NaN" by metis
      from Cons.prems jl have "\<not> flt bv (pre ! j)" by simp
      from flt_le_less_trans[OF np nbv nx this True] show "flt ((pre @ [x]) ! j) x"
        using jl by (simp add: nth_append)
    qed
    from Cons.IH[OF npre nxs 1 2 3 4 5] True nbv Cons.prems(5) show ?thesis
      unfolding app by simp
  next
    case False
    have 1: "best < length (pre @ [x])" using Cons.prems by simp
    have 2: "(pre @ [x]) ! best = bv" using Cons.prems by (simp add: nth_append)
    have 3: "Suc i = length (pre @ [x])" using Cons.prems by simp
    have 4: "\<forall>j < length (pre @ [x]). \<not> flt bv ((pre @ [x]) ! j)"
      using Cons.prems False by (auto simp: nth_append less_Suc_eq)
    have 5: "\<forall>j < best. flt ((pre @ [x]) ! j) bv"
      using Cons.prems by (auto simp: nth_append)
    from Cons.IH[OF npre nxs 1 2 3 4 5] False nx show ?thesis
      unfolding app by simp
  qed
qed

lemma np_argmax_spec:
  assumes "NaN \<notin> set xs" "np_argmax xs = Inr k"
  shows "k < length xs \<and> (\<forall>j < length xs. \<not> flt (xs ! k) (xs ! j)) \<and> (\<forall>j < k. flt (xs ! j) (xs ! k))"
proof -
  from assms(2) obtain x rest where xs: "xs = x # rest" and k: "k = argmax_scan 0 x 1 rest"
    by (auto simp: np_argmax_def split: list.splits)
  from assms(1) xs have "NaN \<notin> set [x]" "NaN \<notin> set rest" by auto
  from argmax_scan_spec[OF this, of 0 x 1] show ?thesis
    unfolding xs k by (simp add: flt_irrefl)
qed

lemma map_of_dict_store: "map_of (dict_store k v kvs) = (map_of kvs)(k \<mapsto> v)"
  by (induction kvs) (auto simp: fun_eq_iff)

lemma info_probs_spec:
  assumes "info_probs raw legal probs is acc = Inr info" "distinct (map ((!) raw) is)"
  shows "(\<forall>i \<in> set is. map_of info (raw ! i) = Some (probs ! (legal ! i))) \<and>
         (\<forall>k. k \<notin> (!) raw ` set is \<longrightarrow> map_of info k = map_of acc k)"
  using assms
proof (induction "is" arbitrary: acc)
  case Nil
  then show ?case by simp
next
  case (Cons i rest)
  let ?acc' = "dict_store (raw ! i) (probs ! (legal ! i)) acc"
  from Cons.prems have r: "info_probs raw legal probs rest ?acc' = Inr info"
    and d: "distinct (map ((!) raw) rest)" and ni: "raw ! i \<notin> (!) raw ` set rest"
    by (auto split: if_splits)
  from Cons.IH[OF r d] have
    a: "\<forall>j \<in> set rest. map_of info (raw ! j) = Some (probs ! (legal ! j))" and
    b: "\<forall>k. k \<notin> (!) raw ` set rest \<longrightarrow> map_of info k = map_of ?acc' k"
    by auto
  from b ni have "map_of info (raw ! i) = Some (probs ! (legal ! i))"
    by (simp add: map_of_dict_store)
  moreover from b have "\<forall>k. k \<notin> (!) raw ` set (i # rest) \<longrightarrow> map_of info k = map_of acc k"
    by (auto simp: map_of_dict_store)
  ultimately show ?case using a by simp
qed

lemma info_probs_returns:
  "\<forall>i \<in> set is. i < length raw \<and> legal ! i < length probs \<Longrightarrow>
   \<exists>info. info_probs raw legal probs is acc = Inr info"
  by (induction "is" arbitrary: acc) auto

lemma info_probs_inrange:
  "info_probs raw legal probs is acc = Inr info \<Longrightarrow>
   \<forall>i \<in> set is. i < length raw \<and> legal ! i < length probs"
  by (induction "is" arbitrary: acc) (auto split: if_splits)

lemma map_nth_upt_take:
  assumes "n \<le> length raw"
  shows "map ((!) raw) [0 ..< n] = take n raw"
proof -
  from assms have "take n [0 ..< length raw] = [0 ..< n]" by simp
  then have "map ((!) raw) [0 ..< n] = take n (map ((!) raw) [0 ..< length raw])"
    by (simp add: take_map)
  then show ?thesis by (simp add: map_nth)
qed

lemma eval_step_result:
  assumes ap: "action_probs a (obs st) (legal_actions st) = Inr (probs, a1)"
    and ev: "eval_step a st = Inr ((action, info), a')"
  shows "a' = a1 \<and> np_argmax probs = Inr action \<and>
         info_probs (raw_legal_actions st) (legal_actions st) probs
           [0 ..< length (legal_actions st)] [] = Inr info"
  using ev unfolding eval_step_def ap by (auto split: sum.splits)

text \<open>
  C6: \<open>eval_step\<close> is a function of the agent and the state.  When it returns, on a
  masked probability vector without NaN, the action is an index of a largest entry of
  the vector and every earlier entry is strictly smaller (ties go to the lowest index),
  and, the raw representations of the legal actions being distinct, the reported
  dictionary maps the representation of each legal action to the probability at that
  action's index and has no other key.  It returns whenever the vector is not empty,
  covers the legal indices and every legal action has a raw representation.
\<close>

theorem eval_step_greedy:
  assumes "action_probs a (obs st) (legal_actions st) = Inr (probs, a1)"
    and "NaN \<notin> set probs"
  shows "(\<forall>action info a'. eval_step a st = Inr ((action, info), a') \<longrightarrow>
            a' = a1 \<and> action < length probs \<and>
            (\<forall>j < length probs. \<not> flt (probs ! action) (probs ! j)) \<and>
            (\<forall>j < action. flt (probs ! j) (probs ! action)) \<and>
            (distinct (take (length (legal_actions st)) (raw_legal_actions st)) \<longrightarrow>
               (\<forall>i < length (legal_actions st).
                   map_of info (raw_legal_actions st ! i) = Some (probs ! (legal_actions st ! i))) \<and>
               dom (map_of info) =
                 (!) (raw_legal_actions st) ` {..< length (legal_actions st)})) \<and>
         (probs \<noteq> [] \<and> length (legal_actions st) \<le> length (raw_legal_actions st) \<and>
          (\<forall>i \<in> set (legal_actions st). i < length probs) \<longrightarrow>
            (\<exists>action info. eval_step a st = Inr ((action, info), a1)))"
proof (intro conjI allI impI)
  fix action info a'
  assume ev: "eval_step a st = Inr ((action, info), a')"
  note r = eval_step_result[OF assms(1) ev]
  from r show "a' = a1" by simp
  from np_argmax_spec[OF assms(2)] r
  show "action < length probs" "\<And>j. j < length probs \<Longrightarrow> \<not> flt (probs ! action) (probs ! j)"
    "\<And>j. j < action \<Longrightarrow> flt (probs ! j) (probs ! action)"
    by blast+
  let ?raw = "raw_legal_actions st" and ?legal = "legal_actions st"
  assume d: "distinct (take (length ?legal) ?raw)"
  from r have ip: "info_probs ?raw ?legal probs [0 ..< length ?legal] [] = Inr info" by simp
  from info_probs_inrange[OF ip] have le: "length ?legal \<le> length ?raw"
    by (cases "length ?legal") (auto simp: less_Suc_eq_le dest: bspec[where x = "length ?legal - 1"])
  from d map_nth_upt_take[OF le] have d': "distinct (map ((!) ?raw) [0 ..< length ?legal])" by simp
  note s = info_probs_spec[OF ip d']
  from s show "\<And>i. i < length ?legal \<Longrightarrow> map_of info (?raw ! i) = Some (probs ! (?legal ! i))"
    by simp
  from s show "dom (map_of info) = (!) ?raw ` {..< length ?legal}"
    by (auto simp: dom_def atLeast0LessThan[symmetric] simp del: atLeast0LessThan)
next
  assume h: "probs \<noteq> [] \<and> length (legal_actions st) \<le> length (raw_legal_actions st) \<and>
          (\<forall>i \<in> set (legal_actions st). i < length probs)"
  then obtain k where k: "np_argmax probs = Inr k"
    by (cases probs) (auto simp: np_argmax_def)
  from h have "\<forall>i \<in> set [0 ..< length (legal_actions st)].
      i < length (raw_legal_actions st) \<and> legal_actions st ! i < length probs" by auto
  from info_probs_returns[OF this] obtain info where
    "info_probs (raw_legal_actions st) (legal_actions st) probs [0 ..< length (legal_actions st)] [] = Inr info"
    by blast
  with k assms(1) show "\<exists>action info. eval_step a st = Inr ((action, info), a1)"
    by (simp add: eval_step_def)
qed

lemma ex_action_probs:
  "action_probs ex_agent (obs ex_state) (legal_actions ex_state) =
     Inr ([Fin (1 / 2), Fin (1 / 2)], ex_stored_agent)"
  by (simp add: ex_stored_agent_def ex_defs run_defs)

theorem eval_step_greedy_witness:
  "action_probs ex_agent (obs ex_state) (legal_actions ex_state) =
     Inr ([Fin (1 / 2), Fin (1 / 2)], ex_stored_agent) \<and>
   NaN \<notin> set [Fin (1 / 2), Fin (1 / 2)] \<and>
   eval_step ex_agent ex_state =
     Inr ((0, [(''call'', Fin (1 / 2)), (''fold'', Fin (1 / 2))]), ex_stored_agent) \<and>
   distinct (take (length (legal_actions ex_state)) (raw_legal_actions ex_state)) \<and>
   np_argmax [Fin (1 / 4), Fin (3 / 4), Fin (3 / 4)] = Inr 1"
proof -
  have n: "NaN \<notin> set [Fin (1 / 2), Fin (1 / 2)]" by simp
  have e: "eval_step ex_agent ex_state =
     Inr ((0, [(''call'', Fin (1 / 2)), (''fold'', Fin (1 / 2))]), ex_stored_agent)"
    unfolding eval_step_def ex_action_probs
    by (simp add: np_argmax_def ex_state_def upt_rec)
  have d: "distinct (take (length (legal_actions ex_state)) (raw_legal_actions ex_state))"
    by (simp add: ex_state_def)
  have m: "np_argmax [Fin (1 / 4), Fin (3 / 4), Fin (3 / 4)] = Inr 1"
    by (simp add: np_argmax_def)
  from eval_step_greedy[OF ex_action_probs n] e d m ex_action_probs n
  show ?thesis by simp
qed


section \<open>The store invariant\<close>

lemma agent_of_Inl_snd: "agent_of (Inl x) = snd x"
  by (cases x) simp

lemma store_inv_env [simp]: "store_inv (b\<lparr>env := e\<rparr>) = store_inv b"
  by (simp add: store_inv_def)

lemma store_inv_None: "store_inv a \<Longrightarrow> policy a ob = None \<longleftrightarrow> qualities a ob = None"
  unfolding store_inv_def by (metis domIff)

lemma action_probs_inv:
  assumes "store_inv a" "0 < num_actions (env a)"
  shows "store_inv (agent_of (action_probs a ob legal)) \<and>
         dom (policy a) \<subseteq> dom (policy (agent_of (action_probs a ob legal))) \<and>
         ob \<in> dom (policy (agent_of (action_probs a ob legal)))"
proof (cases "policy a ob = None \<and> qualities a ob = None")
  case True
  let ?t = "map (\<lambda>action. if action \<in> set legal then Fin 0 else NInf) [0 ..< num_actions (env a)]"
  from assms(2) have "?t \<noteq> []" by simp
  then obtain probs where s: "softmax ?t = Inr probs" by (auto simp: softmax_def Let_def)
  let ?a2 = "a\<lparr>qualities := (qualities a)(ob \<mapsto> ?t), policy := (policy a)(ob \<mapsto> probs)\<rparr>"
  have "agent_of (action_probs a ob legal) = ?a2"
    using True s by (auto simp: action_probs_def Let_def split: sum.splits)
  moreover have "store_inv ?a2" using assms(1) by (auto simp: store_inv_def)
  ultimately show ?thesis by auto
next
  case False
  with store_inv_None[OF assms(1), of ob] obtain v where v: "policy a ob = Some v"
    by (cases "policy a ob") auto
  with False have "agent_of (action_probs a ob legal) = a"
    by (auto simp: action_probs_def policy_get_def split: sum.splits)
  with assms(1) v show ?thesis by auto
qed

lemma update_policy_inv:
  assumes "store_inv a" "ob \<in> dom (policy a)"
  shows "store_inv (agent_of (update_policy a ob ts)) \<and>
         dom (policy (agent_of (update_policy a ob ts))) = dom (policy a)"
proof -
  from assms(2) obtain pv where p: "policy a ob = Some pv" by auto
  with store_inv_None[OF assms(1), of ob] obtain qf where q: "qualities a ob = Some qf"
    by (cases "qualities a ob") auto
  obtain err qf' where u: "update_slots (alpha a) ts qf = (err, qf')"
    by (cases "update_slots (alpha a) ts qf")
  let ?a2 = "a\<lparr>qualities := (qualities a)(ob \<mapsto> qf')\<rparr>"
  have d2: "dom (qualities ?a2) = dom (qualities a)" "dom (policy ?a2) = dom (policy a)"
    using q by auto
  have "agent_of (update_policy a ob ts) = ?a2 \<or>
        (\<exists>probs. agent_of (update_policy a ob ts) = ?a2\<lparr>policy := (policy ?a2)(ob \<mapsto> probs)\<rparr>)"
    using q u by (auto simp: update_policy_def qualities_get_def Let_def split: option.splits sum.splits)
  then show ?thesis
  proof
    assume "agent_of (update_policy a ob ts) = ?a2"
    with assms(1) d2 show ?thesis by (simp add: store_inv_def)
  next
    assume "\<exists>probs. agent_of (update_policy a ob ts) = ?a2\<lparr>policy := (policy ?a2)(ob \<mapsto> probs)\<rparr>"
    then obtain probs where e: "agent_of (update_policy a ob ts) = ?a2\<lparr>policy := (policy ?a2)(ob \<mapsto> probs)\<rparr>"
      by blast
    have "dom (policy (?a2\<lparr>policy := (policy ?a2)(ob \<mapsto> probs)\<rparr>)) = dom (policy a)"
      using p by auto
    with assms(1) d2 e show ?thesis by (simp add: store_inv_def)
  qed
qed

lemma env_step_num_actions: "env_step e act = Inr e1 \<Longrightarrow> num_actions e1 = num_actions e"
  by (auto simp: env_step_def split: game.splits option.splits)

lemma for_actions_inv:
  assumes rec: "\<And>b r. store_inv b \<Longrightarrow> 0 < num_actions (env b) \<Longrightarrow> rec b = Some r \<Longrightarrow>
                  store_inv (agent_of r) \<and> dom (policy b) \<subseteq> dom (policy (agent_of r))"
    and frame: "\<And>b q b'. rec b = Some (Inr (q, b')) \<Longrightarrow> env b' = env b"
  shows "store_inv a \<Longrightarrow> 0 < num_actions (env a) \<Longrightarrow>
         for_actions rec probs acts a v quality = Some r \<Longrightarrow>
         store_inv (agent_of r) \<and> dom (policy a) \<subseteq> dom (policy (agent_of r))"
proof (induction acts arbitrary: a v quality)
  case Nil
  then show ?case by auto
next
  case (Cons action rest)
  show ?case
  proof (cases "action < length probs")
    case False
    with Cons.prems show ?thesis by auto
  next
    case inrange: True
    show ?thesis
    proof (cases "env_step (env a) action")
      case (Inl e)
      with inrange Cons.prems show ?thesis by auto
    next
      case (Inr e1)
      let ?b = "a\<lparr>env := e1\<rparr>"
      from Cons.prems inrange Inr obtain r1 where r1: "rec ?b = Some r1"
        by (cases "rec ?b") auto
      have "store_inv ?b" "0 < num_actions (env ?b)"
        using Cons.prems env_step_num_actions[OF Inr] by simp_all
      from rec[OF this r1] have i1: "store_inv (agent_of r1)"
        and d1: "dom (policy a) \<subseteq> dom (policy (agent_of r1))" by auto
      show ?thesis
      proof (cases r1)
        case (Inl x)
        with Cons.prems inrange \<open>env_step (env a) action = Inr e1\<close> r1 i1 d1
        show ?thesis by (auto simp: agent_of_Inl_snd)
      next
        case (Inr y)
        obtain q a2 where y: "y = (q, a2)" by (cases y)
        from frame r1 Inr y have "env a2 = e1" by fastforce
        with env_step_back_step[OF \<open>env_step (env a) action = Inr e1\<close>]
        have b: "env_step_back (env a2) = Inr (env a)" by simp
        let ?c = "a2\<lparr>env := env a\<rparr>"
        from i1 d1 Inr y have c: "store_inv ?c" "dom (policy a) \<subseteq> dom (policy ?c)"
          by simp_all
        have n: "0 < num_actions (env ?c)" using Cons.prems by simp
        have "for_actions rec probs rest ?c (fadd v (fmul (probs ! action) q))
                (dict_store action q quality) = Some r"
          using Cons.prems(3) inrange \<open>env_step (env a) action = Inr e1\<close> r1 Inr y b by simp
        from Cons.IH[OF c(1) n this] c(2) show ?thesis by auto
      qed
    qed
  qed
qed

lemma traverse_tree_inv:
  "store_inv a \<Longrightarrow> 0 < num_actions (env a) \<Longrightarrow> traverse_tree n a = Some r \<Longrightarrow>
   store_inv (agent_of r) \<and> dom (policy a) \<subseteq> dom (policy (agent_of r))"
proof (induction n arbitrary: a r)
  case 0
  then show ?case by simp
next
  case (Suc n)
  show ?case
  proof (cases "cur (env a)")
    case (Over chips)
    with Suc.prems show ?thesis by (auto split: if_splits)
  next
    case (Turn p st ch)
    show ?thesis
    proof (cases "p = agent_id a")
      case False
      show ?thesis
      proof (cases "p < length (agents (env a))")
        case oob: False
        with Turn \<open>p \<noteq> agent_id a\<close> Suc.prems show ?thesis by auto
      next
        case True
        show ?thesis
        proof (cases "env_step (env a) (seat_step (agents (env a) ! p) st)")
          case (Inl e)
          with Turn False True Suc.prems show ?thesis by (auto simp: Let_def)
        next
          case (Inr e1)
          let ?b = "a\<lparr>env := e1\<rparr>"
          from Suc.prems Turn False True Inr obtain r1 where r1: "traverse_tree n ?b = Some r1"
            by (cases "traverse_tree n ?b") (auto simp: Let_def)
          have "store_inv ?b" "0 < num_actions (env ?b)"
            using Suc.prems env_step_num_actions[OF Inr] by simp_all
          from Suc.IH[OF this r1] have i1: "store_inv (agent_of r1)"
            and d1: "dom (policy a) \<subseteq> dom (policy (agent_of r1))" by auto
          show ?thesis
          proof (cases r1)
            case (Inl x)
            with Suc.prems Turn False True \<open>env_step (env a) (seat_step (agents (env a) ! p) st) = Inr e1\<close>
              r1 i1 d1 show ?thesis by (auto simp: Let_def agent_of_Inl_snd)
          next
            case r1r: (Inr y)
            obtain q a2 where y: "y = (q, a2)" by (cases y)
            have "agent_of r = a2 \<or> (\<exists>e3. agent_of r = a2\<lparr>env := e3\<rparr>)"
              using Suc.prems(3) Turn False True Inr r1 r1r y
              by (auto simp: Let_def split: sum.splits)
            moreover from i1 d1 r1r y have "store_inv a2" "dom (policy a) \<subseteq> dom (policy a2)"
              by simp_all
            ultimately show ?thesis by auto
          qed
        qed
      qed
    next
      case True
      let ?r0 = "action_probs a (obs st) (legal_actions st)"
      from action_probs_inv[OF Suc.prems(1,2), of "obs st" "legal_actions st"]
      have i0: "store_inv (agent_of ?r0)" and d0: "dom (policy a) \<subseteq> dom (policy (agent_of ?r0))"
        and o0: "obs st \<in> dom (policy (agent_of ?r0))" by auto
      show ?thesis
      proof (cases ?r0)
        case (Inl x)
        with Suc.prems(3) Turn True have "r = Inl x" by simp
        with i0 d0 Inl show ?thesis by (simp add: agent_of_Inl_snd)
      next
        case (Inr y)
        obtain probs a1 where y: "y = (probs, a1)" by (cases y)
        from i0 d0 o0 Inr y have i1: "store_inv a1" and d1: "dom (policy a) \<subseteq> dom (policy a1)"
          and o1: "obs st \<in> dom (policy a1)" by auto
        from action_probs_env[of a "obs st" "legal_actions st"] Inr y Suc.prems(2)
        have n1: "0 < num_actions (env a1)" by simp
        let ?f = "for_actions (traverse_tree n) probs (legal_actions st) a1 (Fin 0) []"
        have unf: "traverse_tree (Suc n) a =
            (case ?f of
               None \<Rightarrow> None
             | Some (Inl x) \<Rightarrow> Some (Inl x)
             | Some (Inr ((v, quality), a2)) \<Rightarrow>
                 (case update_policy a2 (obs st) quality of
                    Inl x \<Rightarrow> Some (Inl x)
                  | Inr (u, a3) \<Rightarrow> Some (Inr (fmul v (Fin (gamma a3)), a3))))"
          using Turn True Inr y by simp
        note res = Suc.prems(3)[unfolded unf]
        from res obtain r2 where r2: "?f = Some r2"
          by (cases ?f) simp_all
        have ih: "\<And>b r. store_inv b \<Longrightarrow> 0 < num_actions (env b) \<Longrightarrow>
              traverse_tree n b = Some r \<Longrightarrow>
              store_inv (agent_of r) \<and> dom (policy b) \<subseteq> dom (policy (agent_of r))"
          by (rule Suc.IH)
        have fr: "\<And>b q b'. traverse_tree n b = Some (Inr (q, b')) \<Longrightarrow> env b' = env b"
          by (rule traverse_tree_env)
        have "store_inv (agent_of r2) \<and> dom (policy a1) \<subseteq> dom (policy (agent_of r2))"
          using ih fr i1 n1 r2 by (rule for_actions_inv)
        then have i2: "store_inv (agent_of r2)" and d2: "dom (policy a1) \<subseteq> dom (policy (agent_of r2))"
          by auto
        show ?thesis
        proof (cases r2)
          case (Inl x)
          with res r2 have "r = Inl x" by simp
          with i2 d2 d1 Inl show ?thesis by (auto simp: agent_of_Inl_snd)
        next
          case r2r: (Inr z)
          obtain v q a2 where z: "z = ((v, q), a2)" by (cases z) auto
          from i2 d2 o1 r2r z have i3: "store_inv a2" and o3: "obs st \<in> dom (policy a2)"
            and d3: "dom (policy a1) \<subseteq> dom (policy a2)" by auto
          from update_policy_inv[OF i3 o3, of q]
          have i4: "store_inv (agent_of (update_policy a2 (obs st) q))"
            and d4: "dom (policy (agent_of (update_policy a2 (obs st) q))) = dom (policy a2)"
            by auto
          have "agent_of r = agent_of (update_policy a2 (obs st) q)"
            using res r2 r2r z by (auto split: sum.splits)
          with i4 d4 d3 d1 show ?thesis by auto
        qed
      qed
    qed
  qed
qed

lemma eval_step_agent:
  "agent_of (eval_step a st) = agent_of (action_probs a (obs st) (legal_actions st))"
  by (auto simp: eval_step_def agent_of_Inl_snd split: sum.splits)

lemma find_agent_store [simp]:
  "policy (find_agent a) = policy a" "qualities (find_agent a) = qualities a"
  "env (find_agent a) = env a"
  by (simp_all add: find_agent_def split: option.splits)

lemma train_inv:
  assumes "store_inv a" "0 < num_actions (env a)" "train n a = Some r"
  shows "store_inv (agent_of r)"
proof -
  let ?a3 = "find_agent (a\<lparr>iteration := iteration a + 1, env := env_reset (env a)\<rparr>)"
  from assms(3) obtain r1 where r1: "traverse_tree n ?a3 = Some r1"
    by (cases "traverse_tree n ?a3") (auto simp: train_def Let_def)
  have "store_inv ?a3" "0 < num_actions (env ?a3)"
    using assms(1,2) by (simp_all add: store_inv_def env_reset_def)
  from traverse_tree_inv[OF this r1] have i: "store_inv (agent_of r1)" by simp
  have "agent_of r = agent_of r1"
    using assms(3) r1 by (cases r1) (auto simp: train_def Let_def agent_of_Inl_snd)
  with i show ?thesis by simp
qed

lemma load_save: "load a (save a fs) = Inr ((), a)"
  by (simp add: load_def save_def unpickle_def)

lemma load_inv:
  assumes "load a fs = Inr (u, a')" "fs (model_path a) = Some d"
    "policy_pkl d = Pickled p" "qualities_pkl d = Pickled q" "dom p = dom q"
  shows "store_inv a'"
proof -
  from assms(1-4) have "policy a' = p \<and> qualities a' = q"
    by (auto simp: load_def unpickle_def split: pfile.splits)
  with assms(5) show ?thesis by (simp add: store_inv_def)
qed

text \<open>
  C3, as stated, fails for \<open>load\<close>: from an agent whose store satisfies the invariant,
  loading a model directory whose two dictionaries have different keys leaves a store
  that violates it.
\<close>

theorem load_breaks_store_invariant_counterexample:
  "store_inv ex_agent \<and> 0 < num_actions (env ex_agent) \<and>
   \<not> store_inv (agent_of (load ex_agent ex_fs))"
proof -
  have "load ex_agent ex_fs =
     Inr ((), ex_agent\<lparr>policy := ex_bad_policy, qualities := ex_bad_qualities, iteration := 7\<rparr>)"
    by (simp add: load_def unpickle_def ex_fs_def ex_bad_dir_def ex_agent_def)
  moreover have "dom ex_bad_policy \<noteq> dom ex_bad_qualities"
    by (simp add: ex_bad_policy_def ex_bad_qualities_def)
  ultimately show ?thesis
    by (simp add: store_inv_def ex_agent_def ex_env_def)
qed

text \<open>
  C3, amended: with a static action space that is not empty, \<open>action_probs\<close> (so the
  first visit, which leaves the observation in both dictionaries), \<open>update_policy\<close> on
  a stored observation, \<open>traverse_tree\<close>, \<open>train\<close> and \<open>eval_step\<close> leave the two
  dictionaries with the same keys, whether they return or raise; \<open>save\<close> followed by
  \<open>load\<close> gives the agent back; \<open>load\<close> keeps the invariant when nothing exists at the
  model path, and when it returns from dictionaries persisted with the same keys.
\<close>

theorem store_invariant_preserved:
  assumes "store_inv a" and "0 < num_actions (env a)"
  shows "store_inv (agent_of (action_probs a ob legal)) \<and>
         ob \<in> dom (policy (agent_of (action_probs a ob legal))) \<and>
         ob \<in> dom (qualities (agent_of (action_probs a ob legal))) \<and>
         (ob \<in> dom (qualities a) \<longrightarrow> store_inv (agent_of (update_policy a ob targets))) \<and>
         (\<forall>r. traverse_tree n a = Some r \<longrightarrow> store_inv (agent_of r)) \<and>
         (\<forall>r. train n a = Some r \<longrightarrow> store_inv (agent_of r)) \<and>
         store_inv (agent_of (eval_step a st)) \<and>
         load a (save a fs) = Inr ((), a) \<and>
         (fs (model_path a) = None \<longrightarrow> store_inv (agent_of (load a fs))) \<and>
         (\<forall>d p q u a'. load a fs = Inr (u, a') \<and> fs (model_path a) = Some d \<and>
             policy_pkl d = Pickled p \<and> qualities_pkl d = Pickled q \<and> dom p = dom q \<longrightarrow>
             store_inv a')"
proof -
  note ap = action_probs_inv[OF assms, of ob legal]
  from ap have 1: "store_inv (agent_of (action_probs a ob legal))"
    and 2: "ob \<in> dom (policy (agent_of (action_probs a ob legal)))" by auto
  from 1 2 have 3: "ob \<in> dom (qualities (agent_of (action_probs a ob legal)))"
    by (simp add: store_inv_def)
  have 4: "ob \<in> dom (qualities a) \<longrightarrow> store_inv (agent_of (update_policy a ob targets))"
    using update_policy_inv[OF assms(1), of ob targets] assms(1) by (simp add: store_inv_def)
  have 5: "\<forall>r. traverse_tree n a = Some r \<longrightarrow> store_inv (agent_of r)"
    using traverse_tree_inv[OF assms] by blast
  have 6: "\<forall>r. train n a = Some r \<longrightarrow> store_inv (agent_of r)"
    using train_inv[OF assms] by blast
  have 7: "store_inv (agent_of (eval_step a st))"
    unfolding eval_step_agent using action_probs_inv[OF assms] by blast
  have 8: "fs (model_path a) = None \<longrightarrow> store_inv (agent_of (load a fs))"
    using assms(1) by (simp add: load_def)
  have 9: "\<forall>d p q u a'. load a fs = Inr (u, a') \<and> fs (model_path a) = Some d \<and>
             policy_pkl d = Pickled p \<and> qualities_pkl d = Pickled q \<and> dom p = dom q \<longrightarrow>
             store_inv a'"
    using load_inv by blast
  from 1 2 3 4 5 6 7 8 9 load_save show ?thesis by blast
qed

theorem store_invariant_preserved_witness:
  "store_inv ex_agent \<and> 0 < num_actions (env ex_agent) \<and>
   store_inv (agent_of (action_probs ex_agent ''s0'' [0, 1])) \<and>
   ''s0'' \<in> dom (policy (agent_of (action_probs ex_agent ''s0'' [0, 1]))) \<and>
   ''s0'' \<in> dom (qualities (agent_of (action_probs ex_agent ''s0'' [0, 1]))) \<and>
   (\<exists>r. traverse_tree 2 ex_agent = Some r \<and> store_inv (agent_of r)) \<and>
   store_inv (agent_of (eval_step ex_agent ex_state))"
proof -
  have h: "store_inv ex_agent" "0 < num_actions (env ex_agent)"
    by (simp_all add: store_inv_def ex_agent_def ex_env_def)
  from store_invariant_preserved[OF h, of "''s0''" "[0, 1]" "[]" 2 ex_state Map.empty]
    ex_traverse h
  show ?thesis by auto
qed


section \<open>The value a traversal returns\<close>

lemma action_probs_gamma: "gamma (agent_of (action_probs a ob legal)) = gamma a"
  by (auto simp: action_probs_def agent_of_def policy_get_def Let_def
      split: sum.splits option.splits)

lemma update_policy_gamma: "gamma (agent_of (update_policy a ob ts)) = gamma a"
  by (auto simp: update_policy_def agent_of_def qualities_get_def Let_def
      split: sum.splits option.splits prod.splits)

lemma for_actions_gamma:
  assumes rec: "\<And>b q b'. rec b = Some (Inr (q, b')) \<Longrightarrow> gamma b' = gamma b"
  shows "for_actions rec probs acts a v quality = Some (Inr (x, a')) \<Longrightarrow> gamma a' = gamma a"
proof (induction acts arbitrary: a v quality)
  case Nil
  then show ?case by simp
next
  case (Cons action rest)
  from Cons.prems obtain e1 q a2 e3 where
    r: "rec (a\<lparr>env := e1\<rparr>) = Some (Inr (q, a2))" and
    f: "for_actions rec probs rest (a2\<lparr>env := e3\<rparr>) (fadd v (fmul (probs ! action) q))
          (dict_store action q quality) = Some (Inr (x, a'))"
    by (auto split: if_splits sum.splits option.splits)
  from rec[OF r] have "gamma a2 = gamma a" by simp
  moreover from Cons.IH[OF f] have "gamma a' = gamma a2" by simp
  ultimately show ?case by simp
qed

lemma traverse_tree_gamma:
  "traverse_tree n a = Some (Inr (v, a')) \<Longrightarrow> gamma a' = gamma a"
proof (induction n arbitrary: a v a')
  case 0
  then show ?case by simp
next
  case (Suc n)
  show ?case
  proof (cases "cur (env a)")
    case (Over chips)
    with Suc.prems show ?thesis by (auto split: if_splits)
  next
    case (Turn p st ch)
    show ?thesis
    proof (cases "p = agent_id a")
      case False
      with Turn Suc.prems obtain e1 a2 e3 where
        r: "traverse_tree n (a\<lparr>env := e1\<rparr>) = Some (Inr (v, a2))" and
        a': "a' = a2\<lparr>env := e3\<rparr>"
        by (auto simp: Let_def split: if_splits sum.splits option.splits)
      from Suc.IH[OF r] a' show ?thesis by simp
    next
      case True
      with Turn Suc.prems obtain probs a1 x q a2 u where
        p: "action_probs a (obs st) (legal_actions st) = Inr (probs, a1)" and
        f: "for_actions (traverse_tree n) probs (legal_actions st) a1 (Fin 0) [] = Some (Inr ((x, q), a2))" and
        u: "update_policy a2 (obs st) q = Inr (u, a')"
        by (auto split: if_splits sum.splits option.splits)
      from action_probs_gamma[of a "obs st" "legal_actions st"] p have "gamma a1 = gamma a" by simp
      moreover have "gamma a2 = gamma a1"
        using Suc.IH f by (rule for_actions_gamma)
      moreover from update_policy_gamma[of a2 "obs st" q] u have "gamma a' = gamma a2" by simp
      ultimately show ?thesis by simp
    qed
  qed
qed

lemma for_actions_value:
  "for_actions rec probs acts a v0 q0 = Some (Inr ((v, q), a')) \<Longrightarrow>
   \<exists>qs. child_values rec acts a = Some qs \<and> length qs = length acts \<and>
        v = foldl fadd v0 (map2 (\<lambda>action q. fmul (probs ! action) q) acts qs)"
proof (induction acts arbitrary: a v0 q0)
  case Nil
  then show ?case by simp
next
  case (Cons action rest)
  from Cons.prems obtain e1 qv a2 e3 where
    s: "env_step (env a) action = Inr e1" and
    r: "rec (a\<lparr>env := e1\<rparr>) = Some (Inr (qv, a2))" and
    b: "env_step_back (env a2) = Inr e3" and
    f: "for_actions rec probs rest (a2\<lparr>env := e3\<rparr>) (fadd v0 (fmul (probs ! action) qv))
          (dict_store action qv q0) = Some (Inr ((v, q), a'))"
    by (auto split: if_splits sum.splits option.splits)
  from Cons.IH[OF f] obtain qs where
    c: "child_values rec rest (a2\<lparr>env := e3\<rparr>) = Some qs" and l: "length qs = length rest" and
    v: "v = foldl fadd (fadd v0 (fmul (probs ! action) qv))
              (map2 (\<lambda>action q. fmul (probs ! action) q) rest qs)"
    by blast
  have "child_values rec (action # rest) a = Some (qv # qs)"
    using s r b c by simp
  moreover have "v = foldl fadd v0 (map2 (\<lambda>action q. fmul (probs ! action) q) (action # rest) (qv # qs))"
    using v by simp
  ultimately show ?case using l by (intro exI[of _ "qv # qs"]) simp
qed

lemmas ex_defs2 = ex_leaf_agent_def ex_opp_agent_def ex_leaf_game_def ex_opp_game_def
  ex_opp_state_def ex_agent_def ex_env_def ex_state_def

lemma ex_leaf_traverse:
  "\<exists>a'. traverse_tree 2 ex_leaf_agent = Some (Inr (Fin (4 / 5), a'))"
  by (simp add: numeral_2_eq_2 ex_defs2 run_defs one_plus_exp_ne)

lemma ex_opp_traverse:
  "\<exists>a'. traverse_tree 3 ex_opp_agent = Some (Inr (Fin (4 / 5), a'))"
  by (simp add: numeral_3_eq_3 ex_defs2 run_defs one_plus_exp_ne)

text \<open>
  C1: at a node that is not over, when \<open>traverse_tree\<close> returns the value \<open>v\<close>: if it
  is the agent's turn, \<open>v\<close> is \<open>gamma\<close> times the sum over the legal actions, in their
  order, of the masked probability of the action times the value the recursion into
  that action returned, \<open>gamma\<close> being applied once; if it is another seat's turn, \<open>v\<close>
  is the value the recursion into that seat's action returned, unchanged.
\<close>

theorem traverse_tree_value:
  assumes "cur (env a) = Turn p st ch" and "traverse_tree (Suc n) a = Some (Inr (v, a'))"
  shows "(p = agent_id a \<longrightarrow>
           (\<exists>probs a1 qs.
               action_probs a (obs st) (legal_actions st) = Inr (probs, a1) \<and>
               child_values (traverse_tree n) (legal_actions st) a1 = Some qs \<and>
               length qs = length (legal_actions st) \<and>
               v = fmul (fsum (map2 (\<lambda>action q. fmul (probs ! action) q) (legal_actions st) qs))
                        (Fin (gamma a)))) \<and>
         (p \<noteq> agent_id a \<longrightarrow>
           (\<exists>e1 a2.
               env_step (env a) (seat_step (agents (env a) ! p) st) = Inr e1 \<and>
               traverse_tree n (a\<lparr>env := e1\<rparr>) = Some (Inr (v, a2))))"
proof (intro conjI impI)
  assume True: "p = agent_id a"
  with assms obtain probs a1 x q a2 u where
    p: "action_probs a (obs st) (legal_actions st) = Inr (probs, a1)" and
    f: "for_actions (traverse_tree n) probs (legal_actions st) a1 (Fin 0) [] = Some (Inr ((x, q), a2))" and
    u: "update_policy a2 (obs st) q = Inr (u, a')" and
    v: "v = fmul x (Fin (gamma a'))"
    by (auto split: if_splits sum.splits option.splits)
  from traverse_tree_gamma[OF assms(2)] have g: "gamma a' = gamma a" .
  from for_actions_value[OF f] obtain qs where
    "child_values (traverse_tree n) (legal_actions st) a1 = Some qs"
    "length qs = length (legal_actions st)"
    "x = fsum (map2 (\<lambda>action q. fmul (probs ! action) q) (legal_actions st) qs)"
    unfolding fsum_def by blast
  with p v g show "\<exists>probs a1 qs.
               action_probs a (obs st) (legal_actions st) = Inr (probs, a1) \<and>
               child_values (traverse_tree n) (legal_actions st) a1 = Some qs \<and>
               length qs = length (legal_actions st) \<and>
               v = fmul (fsum (map2 (\<lambda>action q. fmul (probs ! action) q) (legal_actions st) qs))
                        (Fin (gamma a))"
    by auto
next
  assume "p \<noteq> agent_id a"
  with assms show "\<exists>e1 a2.
               env_step (env a) (seat_step (agents (env a) ! p) st) = Inr e1 \<and>
               traverse_tree n (a\<lparr>env := e1\<rparr>) = Some (Inr (v, a2))"
    by (auto simp: Let_def split: if_splits sum.splits option.splits)
qed

theorem traverse_tree_value_witness:
  "cur (env ex_leaf_agent) = Turn 0 ex_state [(0, Over [Fin 3, Fin (- 3)]), (1, Over [Fin 1, Fin (- 1)])] \<and>
   (\<exists>a'. traverse_tree (Suc 1) ex_leaf_agent = Some (Inr (Fin (4 / 5), a'))) \<and>
   (\<exists>probs a1 qs.
       action_probs ex_leaf_agent (obs ex_state) (legal_actions ex_state) = Inr (probs, a1) \<and>
       child_values (traverse_tree 1) (legal_actions ex_state) a1 = Some qs \<and>
       length qs = length (legal_actions ex_state) \<and>
       Fin (4 / 5) =
         fmul (fsum (map2 (\<lambda>action q. fmul (probs ! action) q) (legal_actions ex_state) qs))
              (Fin (gamma ex_leaf_agent))) \<and>
   cur (env ex_opp_agent) = Turn 1 ex_opp_state [(0, ex_leaf_game)] \<and>
   (\<exists>a'. traverse_tree (Suc 2) ex_opp_agent = Some (Inr (Fin (4 / 5), a'))) \<and>
   (\<exists>e1 a2.
       env_step (env ex_opp_agent) (seat_step (agents (env ex_opp_agent) ! 1) ex_opp_state) = Inr e1 \<and>
       traverse_tree 2 (ex_opp_agent\<lparr>env := e1\<rparr>) = Some (Inr (Fin (4 / 5), a2)))"
proof -
  have c1: "cur (env ex_leaf_agent) =
      Turn 0 ex_state [(0, Over [Fin 3, Fin (- 3)]), (1, Over [Fin 1, Fin (- 1)])]"
    by (simp add: ex_leaf_agent_def ex_leaf_game_def)
  from ex_leaf_traverse obtain a' where
    t1: "traverse_tree (Suc 1) ex_leaf_agent = Some (Inr (Fin (4 / 5), a'))"
    by (auto simp: numeral_2_eq_2)
  have i1: "0 = agent_id ex_leaf_agent" by (simp add: ex_leaf_agent_def ex_agent_def)
  from traverse_tree_value[OF c1 t1] i1 have w1: "\<exists>probs a1 qs.
       action_probs ex_leaf_agent (obs ex_state) (legal_actions ex_state) = Inr (probs, a1) \<and>
       child_values (traverse_tree 1) (legal_actions ex_state) a1 = Some qs \<and>
       length qs = length (legal_actions ex_state) \<and>
       Fin (4 / 5) =
         fmul (fsum (map2 (\<lambda>action q. fmul (probs ! action) q) (legal_actions ex_state) qs))
              (Fin (gamma ex_leaf_agent))"
    by blast
  have c2: "cur (env ex_opp_agent) = Turn 1 ex_opp_state [(0, ex_leaf_game)]"
    by (simp add: ex_opp_agent_def ex_opp_game_def)
  from ex_opp_traverse obtain a'' where
    t2: "traverse_tree (Suc 2) ex_opp_agent = Some (Inr (Fin (4 / 5), a''))"
    by (auto simp: numeral_3_eq_3 numeral_2_eq_2)
  have i2: "1 \<noteq> agent_id ex_opp_agent" by (simp add: ex_opp_agent_def ex_agent_def)
  from traverse_tree_value[OF c2 t2] i2 have w2: "\<exists>e1 a2.
       env_step (env ex_opp_agent) (seat_step (agents (env ex_opp_agent) ! 1) ex_opp_state) = Inr e1 \<and>
       traverse_tree 2 (ex_opp_agent\<lparr>env := e1\<rparr>) = Some (Inr (Fin (4 / 5), a2))"
    by blast
  from c1 t1 w1 c2 t2 w2 show ?thesis by blast
qed


end
